theory Spec2Isabelle
  imports Main "HOL-Library.Word"
begin

section \<open>Machine integers and dimensions\<close>

text \<open>
  The program computes every index, offset and byte length in \<^verbatim>\<open>unsigned long\<close> or
  \<^verbatim>\<open>size_t\<close>, both 64 bits wide on the LP64 platforms the program targets, so they
  are 64-bit words here and the arithmetic wraps. An \<^verbatim>\<open>off_t\<close> or \<^verbatim>\<open>ssize_t\<close>
  value is a signed 64-bit integer, read from a word with \<open>sint\<close>.
\<close>

type_synonym ulong = "64 word"

text \<open>The array \<^verbatim>\<open>unsigned long n[3]\<close> of \<^verbatim>\<open>main\<close>.\<close>

type_synonym dims = "ulong \<times> ulong \<times> ulong"

subsection \<open>The three offset functions\<close>

fun offset_ijk :: "dims \<Rightarrow> ulong \<Rightarrow> ulong \<Rightarrow> ulong \<Rightarrow> ulong" where
  "offset_ijk (n0, n1, n2) i j k = i * n2 * n1 + n2 * j + k"

fun offset_jki :: "dims \<Rightarrow> ulong \<Rightarrow> ulong \<Rightarrow> ulong \<Rightarrow> ulong" where
  "offset_jki (n0, n1, n2) i j k = j * n0 * n2 + n0 * k + i"

fun offset_jik :: "dims \<Rightarrow> ulong \<Rightarrow> ulong \<Rightarrow> ulong \<Rightarrow> ulong" where
  "offset_jik (n0, n1, n2) i j k = j * n0 * n2 + n2 * i + k"

text \<open>
  The index cube of a dimension triple, and the number of its elements as the
  mathematical product (which the 64-bit product equals when it does not wrap).
\<close>

definition cube :: "dims \<Rightarrow> (ulong \<times> ulong \<times> ulong) set" where
  "cube n = (case n of (n0, n1, n2) \<Rightarrow> {(i, j, k). i < n0 \<and> j < n1 \<and> k < n2})"

definition n_elems :: "dims \<Rightarrow> nat" where
  "n_elems n = (case n of (n0, n1, n2) \<Rightarrow> unat n0 * unat n1 * unat n2)"

subsection \<open>Counting loops\<close>

text \<open>
  \<^verbatim>\<open>for ( i=i0; i<n; i++ ) body\<close> with an \<^verbatim>\<open>unsigned long\<close> counter. The body
  either fails (\<open>Inl\<close>, the process has exited) or returns the next state.
\<close>

function for_ul :: "ulong \<Rightarrow> ulong \<Rightarrow> (ulong \<Rightarrow> 's \<Rightarrow> 'e + 's) \<Rightarrow> 's \<Rightarrow> 'e + 's" where
  "for_ul i n body s =
     (if i < n then
        (case body i s of
           Inl e \<Rightarrow> Inl e
         | Inr s' \<Rightarrow> for_ul (i + 1) n body s')
      else Inr s)"
  by pat_completeness auto
termination
proof (relation "measure (\<lambda>(i, n, body, s). unat n - unat i)")
  show "wf (measure (\<lambda>(i :: ulong, n :: ulong, body :: ulong \<Rightarrow> 's \<Rightarrow> 'e + 's, s :: 's). unat n - unat i))"
    by simp
next
  fix i n :: ulong and body :: "ulong \<Rightarrow> 's \<Rightarrow> 'e + 's" and s x2 :: 's
  assume "i < n"
  then have lt: "unat i < unat n"
    by (simp add: word_less_nat_alt)
  moreover have "unat n < 2 ^ 64"
    using unsigned_less [of n] by simp
  ultimately have "unat i + unat (1 :: ulong) < 2 ^ LENGTH(64)"
    by simp
  then have "unat (i + 1) = unat i + unat (1 :: ulong)"
    by (simp only: unat_add_lem)
  with lt show "((i + 1, n, body, x2), (i, n, body, s)) \<in> measure (\<lambda>(i, n, body, s). unat n - unat i)"
    by simp
qed

declare for_ul.simps [simp del]

section \<open>Elements\<close>

text \<open>
  A file element is the 8 bytes of one \<^verbatim>\<open>double\<close>, kept as one 64-bit pattern. The
  conversion engine moves elements without looking into them; only the initializer
  makes them, by the C conversion from \<^verbatim>\<open>unsigned long\<close> to \<^verbatim>\<open>double\<close>
  (\<^verbatim>\<open>double v = offset_jki(n, i, j, k)\<close>), which is exact below \<open>2 ^ 53\<close> and rounds
  to the nearest double, ties to even, above. \<open>double_of_ulong\<close> gives the IEEE 754
  binary64 pattern of the result: sign 0, biased exponent in bits 52 to 62 and the
  fraction below, where a round-up that overflows the fraction carries into the
  exponent.
\<close>

type_synonym elem = "64 word"

fun bitlen :: "nat \<Rightarrow> nat" where
  "bitlen x = (if x = 0 then 0 else Suc (bitlen (x div 2)))"

declare bitlen.simps [simp del]

definition double_of_ulong :: "ulong \<Rightarrow> elem" where
  "double_of_ulong u =
     (let x = unat u in
      if x = 0 then 0
      else
        let e = bitlen x - 1 in
        if e \<le> 52 then of_nat ((1023 + e) * 2 ^ 52 + (x * 2 ^ (52 - e) - 2 ^ 52))
        else
          let sh = e - 52;
              q = x div 2 ^ sh;
              r = x mod 2 ^ sh;
              half = 2 ^ (sh - 1);
              up = (if half < r \<or> (r = half \<and> odd q) then 1 else 0)
          in of_nat ((1023 + e) * 2 ^ 52 + (q - 2 ^ 52) + up))"

section \<open>Process exit\<close>

definition ENOENT :: int where "ENOENT = 2"
definition EBADF :: int where "EBADF = 9"
definition ENOMEM :: int where "ENOMEM = 12"
definition EEXIST :: int where "EEXIST = 17"
definition EINVAL :: int where "EINVAL = 22"
definition EFBIG :: int where "EFBIG = 27"
definition ENOSPC :: int where "ENOSPC = 28"

text \<open>One constructor for each \<^verbatim>\<open>ERROR:\<close> line that \<^verbatim>\<open>main\<close> prints before it exits.\<close>

datatype err =
    Bad_dimension | No_input_name | Create_input | Truncate_input | Write_input
  | Alloc | No_output_name | Open_input | Stat_input | Input_too_small | Input_too_large
  | Create_output | Open_output | Stat_output | Output_too_small | Output_too_large
  | Seek_input | Unexpected_eof | Read_input | Seek_output | Write_output

text \<open>
  \<open>Exit e c\<close> is \<^verbatim>\<open>exit(c)\<close> after the message \<open>e\<close>. An access outside a
  \<^verbatim>\<open>malloc\<close>ed buffer is undefined in C; the model stops there with
  \<open>Undefined_behaviour\<close>, so that a run which returns has made no such access.
\<close>

datatype fatal = Exit err int | Undefined_behaviour

section \<open>The I/O capability\<close>

text \<open>
  \<^verbatim>\<open>main\<close> owns two handles, \<^verbatim>\<open>in_fh\<close> and \<^verbatim>\<open>out_fh\<close>; a callback gets a pointer
  to one of them. The callbacks of \<^verbatim>\<open>file_handle_callbacks\<close> act on the outside
  world \<open>'w\<close>, which is passed and returned. A read returns the elements it put into
  the buffer, a write is given the elements of the buffer it reads from. \<open>fh_errno\<close>
  reads \<^verbatim>\<open>errno\<close>.
\<close>

datatype handle = In_fh | Out_fh

record 'w file_handle_callbacks =
  fh_open :: "handle \<Rightarrow> string \<Rightarrow> bool \<Rightarrow> bool \<Rightarrow> bool \<Rightarrow> 'w \<Rightarrow> bool \<times> 'w"
  fh_stat :: "handle \<Rightarrow> 'w \<Rightarrow> int option \<times> 'w"
  fh_seek :: "handle \<Rightarrow> int \<Rightarrow> 'w \<Rightarrow> int \<times> 'w"
  fh_read :: "handle \<Rightarrow> ulong \<Rightarrow> 'w \<Rightarrow> (int \<times> elem list) \<times> 'w"
  fh_write :: "handle \<Rightarrow> elem list \<Rightarrow> ulong \<Rightarrow> 'w \<Rightarrow> int \<times> 'w"
  fh_close :: "handle \<Rightarrow> 'w \<Rightarrow> 'w"
  fh_errno :: "'w \<Rightarrow> int"

text \<open>
  The process state: the world and the list of seek, read and write calls made so
  far, each with its arguments and its result (offset and result of a seek, byte
  length and result of a read or write). The list is not in the C program; it is
  kept so that properties of the calls can be stated.
\<close>

datatype io_event =
    Ev_seek handle int int
  | Ev_read handle ulong int
  | Ev_write handle ulong int

record 'w proc =
  world :: 'w
  trace :: "io_event list"

type_synonym 'w failure = "fatal \<times> 'w proc"

definition io_seek :: "'w file_handle_callbacks \<Rightarrow> handle \<Rightarrow> int \<Rightarrow> 'w proc \<Rightarrow> int \<times> 'w proc" where
  "io_seek io fh off s =
     (case fh_seek io fh off (world s) of
        (r, w) \<Rightarrow> (r, s\<lparr>world := w, trace := trace s @ [Ev_seek fh off r]\<rparr>))"

text \<open>A read cannot put more than \<open>len\<close> bytes into the buffer.\<close>

definition io_read ::
  "'w file_handle_callbacks \<Rightarrow> handle \<Rightarrow> ulong \<Rightarrow> 'w proc \<Rightarrow> (int \<times> elem list) \<times> 'w proc" where
  "io_read io fh len s =
     (case fh_read io fh len (world s) of
        ((r, data), w) \<Rightarrow>
          ((r, take (unat len div 8) data), s\<lparr>world := w, trace := trace s @ [Ev_read fh len r]\<rparr>))"

definition io_write ::
  "'w file_handle_callbacks \<Rightarrow> handle \<Rightarrow> elem list \<Rightarrow> ulong \<Rightarrow> 'w proc \<Rightarrow> int \<times> 'w proc" where
  "io_write io fh buf len s =
     (case fh_write io fh buf len (world s) of
        (r, w) \<Rightarrow> (r, s\<lparr>world := w, trace := trace s @ [Ev_write fh len r]\<rparr>))"

text \<open>\<^verbatim>\<open>fprintf(stderr, ...); exit(errno);\<close>\<close>

definition die :: "'w file_handle_callbacks \<Rightarrow> err \<Rightarrow> 'w proc \<Rightarrow> 'w failure + 'b" where
  "die io e s = Inl (Exit e (fh_errno io (world s)), s)"

text \<open>
  Storing what a read returned into a buffer, from index \<open>off\<close> on. Memory from
  \<^verbatim>\<open>malloc\<close> and an uninitialised local hold indeterminate values; the model takes
  zeros for them.
\<close>

definition buf_store :: "elem list \<Rightarrow> nat \<Rightarrow> elem list \<Rightarrow> elem list" where
  "buf_store v off data = take off v @ data @ drop (off + length data) v"

section \<open>The conversion engine\<close>

datatype algorithm_t =
    algorithm_invalid
  | algorithm_ijk_map
  | algorithm_jki_map
  | algorithm_jik_map
  | algorithm_vector_input
  | algorithm_vector_output
  | algorithm_matrix
  | algorithm_max

text \<open>
  The body of the innermost loop of \<^verbatim>\<open>ijk_map\<close>, \<^verbatim>\<open>jki_map\<close> and \<^verbatim>\<open>jik_map\<close>,
  which the source repeats word for word in the three cases: seek the input to
  \<^verbatim>\<open>sizeof(double) * offset_jki(n, i, j, k)\<close>, read one element, seek the output to
  \<^verbatim>\<open>sizeof(double) * offset_jik(n, i, j, k)\<close>, write the element.
\<close>

definition map_step ::
  "'w file_handle_callbacks \<Rightarrow> dims \<Rightarrow> ulong \<Rightarrow> ulong \<Rightarrow> ulong \<Rightarrow> 'w proc \<Rightarrow> 'w failure + 'w proc" where
  "map_step io n i j k s =
     (case io_seek io In_fh (sint (8 * offset_jki n i j k)) s of
        (r, s) \<Rightarrow>
          if r < 0 then die io Seek_input s
          else
            (case io_read io In_fh 8 s of
               ((n_bytes, data), s) \<Rightarrow>
                 if n_bytes \<le> 0 then
                   (if n_bytes = 0 then Inl (Exit Unexpected_eof EINVAL, s)
                    else die io Read_input s)
                 else
                   (case io_seek io Out_fh (sint (8 * offset_jik n i j k)) s of
                      (r, s) \<Rightarrow>
                        if r < 0 then die io Seek_output s
                        else
                          (case io_write io Out_fh (buf_store [0] 0 data) 8 s of
                             (n_bytes, s) \<Rightarrow>
                               if n_bytes \<le> 0 then die io Write_output s else Inr s))))"

definition conv_ijk_map :: "'w file_handle_callbacks \<Rightarrow> dims \<Rightarrow> 'w proc \<Rightarrow> 'w failure + 'w proc" where
  "conv_ijk_map io n =
     (case n of (n0, n1, n2) \<Rightarrow>
        for_ul 0 n0 (\<lambda>i. for_ul 0 n1 (\<lambda>j. for_ul 0 n2 (\<lambda>k. map_step io n i j k))))"

definition conv_jki_map :: "'w file_handle_callbacks \<Rightarrow> dims \<Rightarrow> 'w proc \<Rightarrow> 'w failure + 'w proc" where
  "conv_jki_map io n =
     (case n of (n0, n1, n2) \<Rightarrow>
        for_ul 0 n1 (\<lambda>j. for_ul 0 n2 (\<lambda>k. for_ul 0 n0 (\<lambda>i. map_step io n i j k))))"

definition conv_jik_map :: "'w file_handle_callbacks \<Rightarrow> dims \<Rightarrow> 'w proc \<Rightarrow> 'w failure + 'w proc" where
  "conv_jik_map io n =
     (case n of (n0, n1, n2) \<Rightarrow>
        for_ul 0 n1 (\<lambda>j. for_ul 0 n0 (\<lambda>i. for_ul 0 n2 (\<lambda>k. map_step io n i j k))))"

subsection \<open>\<^verbatim>\<open>vector_input\<close>\<close>

text \<open>The inner loop: element \<open>i\<close> of the vector goes to its place in the output.\<close>

definition vi_write_step ::
  "'w file_handle_callbacks \<Rightarrow> dims \<Rightarrow> elem list \<Rightarrow> ulong \<Rightarrow> ulong \<Rightarrow> ulong \<Rightarrow> 'w proc
     \<Rightarrow> 'w failure + 'w proc" where
  "vi_write_step io n v j k i s =
     (case io_seek io Out_fh (sint (8 * offset_jik n i j k)) s of
        (r, s) \<Rightarrow>
          if r < 0 then die io Seek_output s
          else if length v \<le> unat i then Inl (Undefined_behaviour, s)
          else
            (case io_write io Out_fh [v ! unat i] 8 s of
               (n_bytes, s) \<Rightarrow> if n_bytes \<le> 0 then die io Write_output s else Inr s))"

definition vi_step ::
  "'w file_handle_callbacks \<Rightarrow> dims \<Rightarrow> ulong \<Rightarrow> ulong \<Rightarrow> ulong \<Rightarrow> 'w proc \<times> elem list
     \<Rightarrow> 'w failure + 'w proc \<times> elem list" where
  "vi_step io n v_len j k sv =
     (case sv of (s, v) \<Rightarrow>
      case io_seek io In_fh (sint (8 * offset_jki n 0 j k)) s of
        (r, s) \<Rightarrow>
          if r < 0 then die io Seek_input s
          else
            (case io_read io In_fh v_len s of
               ((n_bytes, data), s) \<Rightarrow>
                 if n_bytes \<le> 0 then
                   (if n_bytes = 0 then Inl (Exit Unexpected_eof EINVAL, s)
                    else die io Read_input s)
                 else
                   (let v = buf_store v 0 data in
                    case for_ul 0 (fst n) (vi_write_step io n v j k) s of
                      Inl e \<Rightarrow> Inl e
                    | Inr s \<Rightarrow> Inr (s, v))))"

text \<open>
  \<open>heap len\<close> says whether \<^verbatim>\<open>malloc(len)\<close> returns a buffer; the buffer then holds
  \<open>len div 8\<close> elements.
\<close>

definition conv_vector_input ::
  "'w file_handle_callbacks \<Rightarrow> (ulong \<Rightarrow> bool) \<Rightarrow> dims \<Rightarrow> 'w proc \<Rightarrow> 'w failure + 'w proc" where
  "conv_vector_input io heap n s =
     (case n of (n0, n1, n2) \<Rightarrow>
        let v_len = 8 * n0 in
        if \<not> heap v_len then Inl (Exit Alloc ENOMEM, s)
        else
          (case for_ul 0 n1 (\<lambda>j. for_ul 0 n2 (\<lambda>k. vi_step io n v_len j k))
                  (s, replicate (unat v_len div 8) 0) of
             Inl e \<Rightarrow> Inl e
           | Inr (s, v) \<Rightarrow> Inr s))"

subsection \<open>\<^verbatim>\<open>vector_output\<close>\<close>

text \<open>The inner loop: the input element of \<open>(i, j, k)\<close> is read into \<^verbatim>\<open>v + k\<close>.\<close>

definition vo_read_step ::
  "'w file_handle_callbacks \<Rightarrow> dims \<Rightarrow> ulong \<Rightarrow> ulong \<Rightarrow> ulong \<Rightarrow> 'w proc \<times> elem list
     \<Rightarrow> 'w failure + 'w proc \<times> elem list" where
  "vo_read_step io n i j k sv =
     (case sv of (s, v) \<Rightarrow>
      case io_seek io In_fh (sint (8 * offset_jki n i j k)) s of
        (r, s) \<Rightarrow>
          if r < 0 then die io Seek_input s
          else if length v \<le> unat k then Inl (Undefined_behaviour, s)
          else
            (case io_read io In_fh 8 s of
               ((n_bytes, data), s) \<Rightarrow>
                 if n_bytes \<le> 0 then
                   (if n_bytes = 0 then Inl (Exit Unexpected_eof EINVAL, s)
                    else die io Read_input s)
                 else Inr (s, buf_store v (unat k) data)))"

definition vo_step ::
  "'w file_handle_callbacks \<Rightarrow> dims \<Rightarrow> ulong \<Rightarrow> ulong \<Rightarrow> ulong \<Rightarrow> 'w proc \<times> elem list
     \<Rightarrow> 'w failure + 'w proc \<times> elem list" where
  "vo_step io n v_len j i sv =
     (case for_ul 0 (snd (snd n)) (vo_read_step io n i j) sv of
        Inl e \<Rightarrow> Inl e
      | Inr (s, v) \<Rightarrow>
          (case io_seek io Out_fh (sint (8 * offset_jik n i j 0)) s of
             (r, s) \<Rightarrow>
               if r < 0 then die io Seek_output s
               else
                 (case io_write io Out_fh v v_len s of
                    (n_bytes, s) \<Rightarrow>
                      if n_bytes \<le> 0 then die io Write_output s else Inr (s, v))))"

definition conv_vector_output ::
  "'w file_handle_callbacks \<Rightarrow> (ulong \<Rightarrow> bool) \<Rightarrow> dims \<Rightarrow> 'w proc \<Rightarrow> 'w failure + 'w proc" where
  "conv_vector_output io heap n s =
     (case n of (n0, n1, n2) \<Rightarrow>
        let v_len = 8 * n2 in
        if \<not> heap v_len then Inl (Exit Alloc ENOMEM, s)
        else
          (case for_ul 0 n1 (\<lambda>j. for_ul 0 n0 (\<lambda>i. vo_step io n v_len j i))
                  (s, replicate (unat v_len div 8) 0) of
             Inl e \<Rightarrow> Inl e
           | Inr (s, v) \<Rightarrow> Inr s))"

subsection \<open>\<^verbatim>\<open>matrix\<close>\<close>

text \<open>
  One allocation of \<^verbatim>\<open>2 * v_len\<close> bytes holds both matrices: \<^verbatim>\<open>v1\<close> at its start
  and \<^verbatim>\<open>v2 = v1 + n[0] * n[2]\<close>. The transposition
  \<^verbatim>\<open>v2[i * n[2] + k] = v1[k * n[0] + i]\<close> works on that one buffer.
\<close>

definition v1_index :: "dims \<Rightarrow> ulong \<Rightarrow> ulong \<Rightarrow> ulong" where
  "v1_index n i k = k * fst n + i"

definition v2_index :: "dims \<Rightarrow> ulong \<Rightarrow> ulong \<Rightarrow> ulong" where
  "v2_index n i k = i * snd (snd n) + k"

definition transpose_step :: "dims \<Rightarrow> ulong \<Rightarrow> ulong \<Rightarrow> elem list \<Rightarrow> unit + elem list" where
  "transpose_step n i k m =
     (let src = unat (v1_index n i k);
          dst = unat (fst n * snd (snd n)) + unat (v2_index n i k)
      in if src < length m \<and> dst < length m then Inr (m[dst := m ! src]) else Inl ())"

definition matrix_step ::
  "'w file_handle_callbacks \<Rightarrow> dims \<Rightarrow> ulong \<Rightarrow> ulong \<Rightarrow> 'w proc \<times> elem list
     \<Rightarrow> 'w failure + 'w proc \<times> elem list" where
  "matrix_step io n v_len j sm =
     (case sm of (s, m) \<Rightarrow>
      case n of (n0, n1, n2) \<Rightarrow>
      case io_seek io In_fh (sint (8 * offset_jki n 0 j 0)) s of
        (r, s) \<Rightarrow>
          if r < 0 then die io Seek_input s
          else
            (case io_read io In_fh v_len s of
               ((n_bytes, data), s) \<Rightarrow>
                 if n_bytes \<le> 0 then
                   (if n_bytes = 0 then Inl (Exit Unexpected_eof EINVAL, s)
                    else die io Read_input s)
                 else if length m < length data then Inl (Undefined_behaviour, s)
                 else
                   (case for_ul 0 n0 (\<lambda>i. for_ul 0 n2 (\<lambda>k. transpose_step n i k))
                           (buf_store m 0 data) of
                      Inl u \<Rightarrow> Inl (Undefined_behaviour, s)
                    | Inr m \<Rightarrow>
                        (case io_seek io Out_fh (sint (8 * offset_jik n 0 j 0)) s of
                           (r, s) \<Rightarrow>
                             if r < 0 then die io Seek_output s
                             else
                               (case io_write io Out_fh (drop (unat (n0 * n2)) m) v_len s of
                                  (n_bytes, s) \<Rightarrow>
                                    if n_bytes \<le> 0 then die io Write_output s
                                    else Inr (s, m))))))"

definition conv_matrix ::
  "'w file_handle_callbacks \<Rightarrow> (ulong \<Rightarrow> bool) \<Rightarrow> dims \<Rightarrow> 'w proc \<Rightarrow> 'w failure + 'w proc" where
  "conv_matrix io heap n s =
     (case n of (n0, n1, n2) \<Rightarrow>
        let v_len = 8 * n0 * n2 in
        if \<not> heap (2 * v_len) then Inl (Exit Alloc ENOMEM, s)
        else
          (case for_ul 0 n1 (matrix_step io n v_len)
                  (s, replicate (unat (2 * v_len) div 8) 0) of
             Inl e \<Rightarrow> Inl e
           | Inr (s, m) \<Rightarrow> Inr s))"

text \<open>The \<^verbatim>\<open>switch ( use_algorithm )\<close> of the conversion phase.\<close>

definition convert ::
  "'w file_handle_callbacks \<Rightarrow> (ulong \<Rightarrow> bool) \<Rightarrow> algorithm_t \<Rightarrow> dims \<Rightarrow> 'w proc
     \<Rightarrow> 'w failure + 'w proc" where
  "convert io heap a n s =
     (case a of
        algorithm_invalid \<Rightarrow> Inr s
      | algorithm_max \<Rightarrow> Inr s
      | algorithm_ijk_map \<Rightarrow> conv_ijk_map io n s
      | algorithm_jki_map \<Rightarrow> conv_jki_map io n s
      | algorithm_jik_map \<Rightarrow> conv_jik_map io n s
      | algorithm_vector_input \<Rightarrow> conv_vector_input io heap n s
      | algorithm_vector_output \<Rightarrow> conv_vector_output io heap n s
      | algorithm_matrix \<Rightarrow> conv_matrix io heap n s)"

section \<open>The initializer\<close>

text \<open>
  The three map variants write one element per step and check the result of the
  write. The source's \<^verbatim>\<open>jik_map\<close> case runs its loops in the order \<open>i\<close>, \<open>j\<close>, \<open>k\<close>
  and stores \<^verbatim>\<open>offset_jik(n, i, j, k)\<close>.
\<close>

definition init_map_step :: "'w file_handle_callbacks \<Rightarrow> elem \<Rightarrow> 'w proc \<Rightarrow> 'w failure + 'w proc" where
  "init_map_step io v s =
     (case io_write io In_fh [v] 8 s of
        (n_bytes, s) \<Rightarrow> if n_bytes \<le> 0 then die io Write_input s else Inr s)"

definition init_ijk_map :: "'w file_handle_callbacks \<Rightarrow> dims \<Rightarrow> 'w proc \<Rightarrow> 'w failure + 'w proc" where
  "init_ijk_map io n =
     (case n of (n0, n1, n2) \<Rightarrow>
        for_ul 0 n0 (\<lambda>i. for_ul 0 n1 (\<lambda>j. for_ul 0 n2 (\<lambda>k.
          init_map_step io (double_of_ulong (offset_ijk n i j k))))))"

definition init_jki_map :: "'w file_handle_callbacks \<Rightarrow> dims \<Rightarrow> 'w proc \<Rightarrow> 'w failure + 'w proc" where
  "init_jki_map io n =
     (case n of (n0, n1, n2) \<Rightarrow>
        for_ul 0 n1 (\<lambda>j. for_ul 0 n2 (\<lambda>k. for_ul 0 n0 (\<lambda>i.
          init_map_step io (double_of_ulong (offset_jki n i j k))))))"

definition init_jik_map :: "'w file_handle_callbacks \<Rightarrow> dims \<Rightarrow> 'w proc \<Rightarrow> 'w failure + 'w proc" where
  "init_jik_map io n =
     (case n of (n0, n1, n2) \<Rightarrow>
        for_ul 0 n0 (\<lambda>i. for_ul 0 n1 (\<lambda>j. for_ul 0 n2 (\<lambda>k.
          init_map_step io (double_of_ulong (offset_jik n i j k))))))"

text \<open>\<^verbatim>\<open>v[idx] = val\<close> on a \<^verbatim>\<open>malloc\<close>ed buffer.\<close>

definition buf_set :: "ulong \<Rightarrow> elem \<Rightarrow> elem list \<Rightarrow> unit + elem list" where
  "buf_set idx val v = (if unat idx < length v then Inr (v[unat idx := val]) else Inl ())"

text \<open>
  The vector and matrix variants fill a buffer and write it. They assign the result
  of the write to \<^verbatim>\<open>n_bytes\<close> and never look at it.
\<close>

definition init_vi_step ::
  "'w file_handle_callbacks \<Rightarrow> dims \<Rightarrow> ulong \<Rightarrow> ulong \<Rightarrow> ulong \<Rightarrow> 'w proc \<times> elem list
     \<Rightarrow> 'w failure + 'w proc \<times> elem list" where
  "init_vi_step io n v_len j k sv =
     (case sv of (s, v) \<Rightarrow>
       (case for_ul 0 (fst n) (\<lambda>i. buf_set i (double_of_ulong (offset_jki n i j k))) v of
          Inl u \<Rightarrow> Inl (Undefined_behaviour, s)
        | Inr v \<Rightarrow> (case io_write io In_fh v v_len s of (n_bytes, s) \<Rightarrow> Inr (s, v))))"

definition init_vector_input ::
  "'w file_handle_callbacks \<Rightarrow> (ulong \<Rightarrow> bool) \<Rightarrow> dims \<Rightarrow> 'w proc \<Rightarrow> 'w failure + 'w proc" where
  "init_vector_input io heap n s =
     (case n of (n0, n1, n2) \<Rightarrow>
        let v_len = 8 * n0 in
        if \<not> heap v_len then Inl (Exit Alloc ENOMEM, s)
        else
          (case for_ul 0 n1 (\<lambda>j. for_ul 0 n2 (\<lambda>k. init_vi_step io n v_len j k))
                  (s, replicate (unat v_len div 8) 0) of
             Inl e \<Rightarrow> Inl e
           | Inr (s, v) \<Rightarrow> Inr s))"

definition init_vo_step ::
  "'w file_handle_callbacks \<Rightarrow> dims \<Rightarrow> ulong \<Rightarrow> ulong \<Rightarrow> ulong \<Rightarrow> 'w proc \<times> elem list
     \<Rightarrow> 'w failure + 'w proc \<times> elem list" where
  "init_vo_step io n v_len j i sv =
     (case sv of (s, v) \<Rightarrow>
       (case for_ul 0 (snd (snd n)) (\<lambda>k. buf_set k (double_of_ulong (offset_jki n i j k))) v of
          Inl u \<Rightarrow> Inl (Undefined_behaviour, s)
        | Inr v \<Rightarrow> (case io_write io In_fh v v_len s of (n_bytes, s) \<Rightarrow> Inr (s, v))))"

definition init_vector_output ::
  "'w file_handle_callbacks \<Rightarrow> (ulong \<Rightarrow> bool) \<Rightarrow> dims \<Rightarrow> 'w proc \<Rightarrow> 'w failure + 'w proc" where
  "init_vector_output io heap n s =
     (case n of (n0, n1, n2) \<Rightarrow>
        let v_len = 8 * n2 in
        if \<not> heap v_len then Inl (Exit Alloc ENOMEM, s)
        else
          (case for_ul 0 n1 (\<lambda>j. for_ul 0 n0 (\<lambda>i. init_vo_step io n v_len j i))
                  (s, replicate (unat v_len div 8) 0) of
             Inl e \<Rightarrow> Inl e
           | Inr (s, v) \<Rightarrow> Inr s))"

definition init_matrix_step ::
  "'w file_handle_callbacks \<Rightarrow> dims \<Rightarrow> ulong \<Rightarrow> ulong \<Rightarrow> 'w proc \<times> elem list
     \<Rightarrow> 'w failure + 'w proc \<times> elem list" where
  "init_matrix_step io n v_len j sv =
     (case sv of (s, v) \<Rightarrow>
       (case for_ul 0 (snd (snd n)) (\<lambda>k. for_ul 0 (fst n) (\<lambda>i.
               buf_set (fst n * k + i) (double_of_ulong (offset_jki n i j k)))) v of
          Inl u \<Rightarrow> Inl (Undefined_behaviour, s)
        | Inr v \<Rightarrow> (case io_write io In_fh v v_len s of (n_bytes, s) \<Rightarrow> Inr (s, v))))"

definition init_matrix ::
  "'w file_handle_callbacks \<Rightarrow> (ulong \<Rightarrow> bool) \<Rightarrow> dims \<Rightarrow> 'w proc \<Rightarrow> 'w failure + 'w proc" where
  "init_matrix io heap n s =
     (case n of (n0, n1, n2) \<Rightarrow>
        let v_len = 8 * n0 * n2 in
        if \<not> heap v_len then Inl (Exit Alloc ENOMEM, s)
        else
          (case for_ul 0 n1 (init_matrix_step io n v_len)
                  (s, replicate (unat v_len div 8) 0) of
             Inl e \<Rightarrow> Inl e
           | Inr (s, v) \<Rightarrow> Inr s))"

text \<open>The \<^verbatim>\<open>switch ( use_algorithm )\<close> of the initializer.\<close>

definition init_input ::
  "'w file_handle_callbacks \<Rightarrow> (ulong \<Rightarrow> bool) \<Rightarrow> algorithm_t \<Rightarrow> dims \<Rightarrow> 'w proc
     \<Rightarrow> 'w failure + 'w proc" where
  "init_input io heap a n s =
     (case a of
        algorithm_invalid \<Rightarrow> Inr s
      | algorithm_max \<Rightarrow> Inr s
      | algorithm_ijk_map \<Rightarrow> init_ijk_map io n s
      | algorithm_jki_map \<Rightarrow> init_jki_map io n s
      | algorithm_jik_map \<Rightarrow> init_jik_map io n s
      | algorithm_vector_input \<Rightarrow> init_vector_input io heap n s
      | algorithm_vector_output \<Rightarrow> init_vector_output io heap n s
      | algorithm_matrix \<Rightarrow> init_matrix io heap n s)"

section \<open>The two backends over a model of the file system\<close>

text \<open>
  The backends call the operating system and the C library, which are not part of
  the repository. They are modelled here as far as the program uses them:
  \<^item> a file is the list of its elements, its size is 8 bytes for each. The program
    transfers whole elements at offsets that are multiples of 8, so a position and a
    length in bytes are divided by 8 to index the list;
  \<^item> \<open>fs\<close> maps a path to the file it names, \<open>oft\<close> maps a handle to its open file
    (path, position in bytes, opened for writing or not), \<open>None\<close> for a handle that is
    not open;
  \<^item> the size of a file is an \<^verbatim>\<open>off_t\<close>: a write that would make it \<open>2 ^ 63\<close> bytes
    or more fails with \<open>EFBIG\<close>;
  \<^item> no file grows beyond \<open>fs_capacity\<close> elements: a write that would make it longer
    fails with \<open>ENOSPC\<close>;
  \<^item> a write past the end of a file fills the gap with zeros;
  \<^item> a read or a write transfers the whole request or fails. The system calls may
    transfer less (Linux transfers at most \<open>0x7ffff000\<close> bytes in one call), so the
    model is that of the system for requests below that length only; the theorems on
    the conversion take the whole transfer as a hypothesis on the backend
    (\<open>whole_transfers\<close> below) instead of the model;
  \<^item> a stream writes through: the buffering of \<^verbatim>\<open>FILE\<close> is not modelled. A write
    of the C library that the file system has no room for succeeds into the buffer
    and fails at a later \<^verbatim>\<open>fseeko\<close> or in \<^verbatim>\<open>fclose\<close>, whose result the program
    does not test; in the model it fails at once;
  \<^item> a call that succeeds leaves \<^verbatim>\<open>errno\<close> as it was: the \<open>ENOENT\<close> that the
    failed \<^verbatim>\<open>stat\<close> of the stream backend leaves behind when it creates a file
    is not modelled;
  \<^item> permissions and hardware errors are not modelled.
\<close>

record ofd =
  ofd_path :: string
  ofd_pos :: nat
  ofd_writable :: bool

record sys =
  fs :: "string \<Rightarrow> elem list option"
  oft :: "handle \<Rightarrow> ofd option"
  errno :: int
  fs_capacity :: nat

definition file_of :: "sys \<Rightarrow> handle \<Rightarrow> (ofd \<times> elem list) option" where
  "file_of w fh =
     (case oft w fh of
        None \<Rightarrow> None
      | Some d \<Rightarrow> (case fs w (ofd_path d) of None \<Rightarrow> None | Some c \<Rightarrow> Some (d, c)))"

definition write_at :: "elem list \<Rightarrow> nat \<Rightarrow> elem list \<Rightarrow> elem list" where
  "write_at c p xs =
     (if p \<le> length c then take p c @ xs @ drop (p + length xs) c
      else c @ replicate (p - length c) 0 @ xs)"

text \<open>
  \<^verbatim>\<open>open(path, oflag, 0666)\<close> with \<^verbatim>\<open>O_RDWR\<close> or \<^verbatim>\<open>O_RDONLY\<close>, \<^verbatim>\<open>O_CREAT\<close> and
  \<^verbatim>\<open>O_TRUNC\<close> as given and never \<^verbatim>\<open>O_EXCL\<close>: an existing file is opened, and
  emptied under \<^verbatim>\<open>O_TRUNC\<close> (also with \<^verbatim>\<open>O_RDONLY\<close>, as on Linux); a missing one is
  created under \<^verbatim>\<open>O_CREAT\<close> and is \<open>ENOENT\<close> otherwise.
\<close>

definition sys_open :: "handle \<Rightarrow> string \<Rightarrow> bool \<Rightarrow> bool \<Rightarrow> bool \<Rightarrow> sys \<Rightarrow> bool \<times> sys" where
  "sys_open fh path rdwr creat trunc w =
     (let d = \<lparr>ofd_path = path, ofd_pos = 0, ofd_writable = rdwr\<rparr> in
      case fs w path of
        None \<Rightarrow>
          if creat then (True, w\<lparr>fs := (fs w)(path \<mapsto> []), oft := (oft w)(fh \<mapsto> d)\<rparr>)
          else (False, w\<lparr>oft := (oft w)(fh := None), errno := ENOENT\<rparr>)
      | Some c \<Rightarrow>
          (True, w\<lparr>fs := (if trunc then (fs w)(path \<mapsto> []) else fs w),
                    oft := (oft w)(fh \<mapsto> d)\<rparr>))"

definition sys_fstat :: "handle \<Rightarrow> sys \<Rightarrow> int option \<times> sys" where
  "sys_fstat fh w =
     (case file_of w fh of
        None \<Rightarrow> (None, w\<lparr>errno := EBADF\<rparr>)
      | Some (d, c) \<Rightarrow> (Some (int (8 * length c)), w))"

text \<open>\<^verbatim>\<open>lseek(fd, offset, SEEK_SET)\<close>, and \<^verbatim>\<open>fseeko\<close> followed by \<^verbatim>\<open>ftello\<close>.\<close>

definition sys_lseek :: "handle \<Rightarrow> int \<Rightarrow> sys \<Rightarrow> int \<times> sys" where
  "sys_lseek fh off w =
     (case oft w fh of
        None \<Rightarrow> (- 1, w\<lparr>errno := EBADF\<rparr>)
      | Some d \<Rightarrow>
          if off < 0 then (- 1, w\<lparr>errno := EINVAL\<rparr>)
          else (off, w\<lparr>oft := (oft w)(fh \<mapsto> d\<lparr>ofd_pos := nat off\<rparr>)\<rparr>))"

text \<open>\<^verbatim>\<open>read\<close> returns what is there, up to the length asked for, and 0 at the end.\<close>

definition sys_read :: "handle \<Rightarrow> ulong \<Rightarrow> sys \<Rightarrow> (int \<times> elem list) \<times> sys" where
  "sys_read fh len w =
     (case file_of w fh of
        None \<Rightarrow> ((- 1, []), w\<lparr>errno := EBADF\<rparr>)
      | Some (d, c) \<Rightarrow>
          let xs = take (unat len div 8) (drop (ofd_pos d div 8) c) in
          ((int (8 * length xs), xs),
           w\<lparr>oft := (oft w)(fh \<mapsto> d\<lparr>ofd_pos := ofd_pos d + 8 * length xs\<rparr>)\<rparr>))"

definition sys_write :: "handle \<Rightarrow> elem list \<Rightarrow> ulong \<Rightarrow> sys \<Rightarrow> int \<times> sys" where
  "sys_write fh buf len w =
     (case file_of w fh of
        None \<Rightarrow> (- 1, w\<lparr>errno := EBADF\<rparr>)
      | Some (d, c) \<Rightarrow>
          if \<not> ofd_writable d then (- 1, w\<lparr>errno := EBADF\<rparr>)
          else
            let xs = take (unat len div 8) buf in
            if xs = [] then (0, w)
            else
              let c' = write_at c (ofd_pos d div 8) xs in
              if 2 ^ 63 \<le> 8 * length c' then (- 1, w\<lparr>errno := EFBIG\<rparr>)
              else if fs_capacity w < length c' then (- 1, w\<lparr>errno := ENOSPC\<rparr>)
              else
                (int (8 * length xs),
                 w\<lparr>fs := (fs w)(ofd_path d \<mapsto> c'),
                   oft := (oft w)(fh \<mapsto> d\<lparr>ofd_pos := ofd_pos d + 8 * length xs\<rparr>)\<rparr>))"

subsection \<open>The descriptor backend\<close>

definition file_handle_open_fd :: "handle \<Rightarrow> string \<Rightarrow> bool \<Rightarrow> bool \<Rightarrow> bool \<Rightarrow> sys \<Rightarrow> bool \<times> sys" where
  "file_handle_open_fd fh path read_only should_create should_trunc w =
     sys_open fh path (\<not> read_only) should_create should_trunc w"

definition file_handle_stat_fd :: "handle \<Rightarrow> sys \<Rightarrow> int option \<times> sys" where
  "file_handle_stat_fd fh w = sys_fstat fh w"

definition file_handle_seek_fd :: "handle \<Rightarrow> int \<Rightarrow> sys \<Rightarrow> int \<times> sys" where
  "file_handle_seek_fd fh off w = sys_lseek fh off w"

definition file_handle_read_fd :: "handle \<Rightarrow> ulong \<Rightarrow> sys \<Rightarrow> (int \<times> elem list) \<times> sys" where
  "file_handle_read_fd fh len w = sys_read fh len w"

definition file_handle_write_fd :: "handle \<Rightarrow> elem list \<Rightarrow> ulong \<Rightarrow> sys \<Rightarrow> int \<times> sys" where
  "file_handle_write_fd fh buf len w = sys_write fh buf len w"

definition file_handle_close_fd :: "handle \<Rightarrow> sys \<Rightarrow> sys" where
  "file_handle_close_fd fh w = (if oft w fh \<noteq> None then w\<lparr>oft := (oft w)(fh := None)\<rparr> else w)"

definition file_handle_callbacks_fd :: "sys file_handle_callbacks" where
  "file_handle_callbacks_fd =
     \<lparr>fh_open = file_handle_open_fd, fh_stat = file_handle_stat_fd,
      fh_seek = file_handle_seek_fd, fh_read = file_handle_read_fd,
      fh_write = file_handle_write_fd, fh_close = file_handle_close_fd,
      fh_errno = errno\<rparr>"

subsection \<open>The stream backend\<close>

text \<open>
  \<^verbatim>\<open>stat(path, &finfo) == 0\<close> holds when the file exists. \<^verbatim>\<open>fopen(path, "rb")\<close> is
  \<^verbatim>\<open>open\<close> with \<^verbatim>\<open>O_RDONLY\<close>; \<^verbatim>\<open>fopen(path, "wb+")\<close> is \<^verbatim>\<open>open\<close> with
  \<^verbatim>\<open>O_RDWR | O_CREAT | O_TRUNC\<close>, after which the \<^verbatim>\<open>ftruncate\<close> to 0 changes
  nothing.
\<close>

definition file_handle_open_stream :: "handle \<Rightarrow> string \<Rightarrow> bool \<Rightarrow> bool \<Rightarrow> bool \<Rightarrow> sys \<Rightarrow> bool \<times> sys" where
  "file_handle_open_stream fh path read_only should_create should_trunc w =
     (if should_create \<and> fs w path \<noteq> None then (False, w\<lparr>errno := EEXIST\<rparr>)
      else
        let read_only = (if should_create then False else read_only) in
        if read_only then sys_open fh path False False False w
        else sys_open fh path True True True w)"

definition file_handle_stat_stream :: "handle \<Rightarrow> sys \<Rightarrow> int option \<times> sys" where
  "file_handle_stat_stream fh w = sys_fstat fh w"

definition file_handle_seek_stream :: "handle \<Rightarrow> int \<Rightarrow> sys \<Rightarrow> int \<times> sys" where
  "file_handle_seek_stream fh off w = sys_lseek fh off w"

text \<open>
  \<^verbatim>\<open>fread(buffer, buffer_len, 1, stream)\<close> returns 1 when the whole item was read.
  Otherwise the backend returns 0 if the stream is at its end and \<open>-1\<close> if not; an
  item of length 0 is never read and does not reach the end.
\<close>

definition file_handle_read_stream :: "handle \<Rightarrow> ulong \<Rightarrow> sys \<Rightarrow> (int \<times> elem list) \<times> sys" where
  "file_handle_read_stream fh len w =
     (case file_of w fh of
        None \<Rightarrow> ((- 1, []), w\<lparr>errno := EBADF\<rparr>)
      | Some (d, c) \<Rightarrow>
          let xs = take (unat len div 8) (drop (ofd_pos d div 8) c);
              w' = w\<lparr>oft := (oft w)(fh \<mapsto> d\<lparr>ofd_pos := ofd_pos d + 8 * length xs\<rparr>)\<rparr>
          in if len = 0 then ((- 1, []), w)
             else if length xs = unat len div 8 then ((sint len, xs), w')
             else ((0, xs), w'))"

definition file_handle_write_stream :: "handle \<Rightarrow> elem list \<Rightarrow> ulong \<Rightarrow> sys \<Rightarrow> int \<times> sys" where
  "file_handle_write_stream fh buf len w =
     (case file_of w fh of
        None \<Rightarrow> (- 1, w\<lparr>errno := EBADF\<rparr>)
      | Some (d, c) \<Rightarrow>
          if \<not> ofd_writable d then (- 1, w\<lparr>errno := EBADF\<rparr>)
          else
            let xs = take (unat len div 8) buf;
                c' = write_at c (ofd_pos d div 8) xs
            in if len = 0 then (- 1, w)
               else if 2 ^ 63 \<le> 8 * length c' then (- 1, w\<lparr>errno := EFBIG\<rparr>)
               else if fs_capacity w < length c' then (- 1, w\<lparr>errno := ENOSPC\<rparr>)
               else
                 (sint len,
                  w\<lparr>fs := (fs w)(ofd_path d \<mapsto> c'),
                    oft := (oft w)(fh \<mapsto> d\<lparr>ofd_pos := ofd_pos d + 8 * length xs\<rparr>)\<rparr>))"

definition file_handle_close_stream :: "handle \<Rightarrow> sys \<Rightarrow> sys" where
  "file_handle_close_stream fh w = w\<lparr>oft := (oft w)(fh := None)\<rparr>"

definition file_handle_callbacks_stream :: "sys file_handle_callbacks" where
  "file_handle_callbacks_stream =
     \<lparr>fh_open = file_handle_open_stream, fh_stat = file_handle_stat_stream,
      fh_seek = file_handle_seek_stream, fh_read = file_handle_read_stream,
      fh_write = file_handle_write_stream, fh_close = file_handle_close_stream,
      fh_errno = errno\<rparr>"

datatype io_driver_t = io_driver_fd | io_driver_stream

definition io_driver_callbacks :: "io_driver_t \<Rightarrow> sys file_handle_callbacks" where
  "io_driver_callbacks d =
     (case d of
        io_driver_fd \<Rightarrow> file_handle_callbacks_fd
      | io_driver_stream \<Rightarrow> file_handle_callbacks_stream)"

section \<open>\<^verbatim>\<open>main\<close> after the command line\<close>

text \<open>
  What the option loop of \<^verbatim>\<open>main\<close> leaves in its local variables. The loop itself
  (\<^verbatim>\<open>getopt_long\<close>, \<^verbatim>\<open>strtoul\<close>) is not modelled.
\<close>

record config =
  input_file :: "string option"
  output_file :: "string option"
  use_io_driver :: io_driver_t
  should_use_exact_dims :: bool
  use_algorithm :: algorithm_t
  should_init_input :: bool
  n_dims :: dims

text \<open>
  The two size tests, made on the input file and again on an output file that
  exists. \<^verbatim>\<open>st_size\<close> is an \<^verbatim>\<open>off_t\<close> and \<^verbatim>\<open>l\<close> a \<^verbatim>\<open>size_t\<close>, so C compares them
  as unsigned 64-bit values.
\<close>

definition check_size :: "err \<Rightarrow> err \<Rightarrow> bool \<Rightarrow> ulong \<Rightarrow> int \<Rightarrow> 'w proc \<Rightarrow> 'w failure + 'w proc" where
  "check_size too_small too_large exact l st_size s =
     (if (of_int st_size :: ulong) < l then Inl (Exit too_small EINVAL, s)
      else if l < (of_int st_size :: ulong) \<and> exact then Inl (Exit too_large EINVAL, s)
      else Inr s)"

text \<open>\<^verbatim>\<open>l = sizeof(double) * n[0] * n[1] * n[2]\<close>\<close>

definition data_len :: "dims \<Rightarrow> ulong" where
  "data_len n = (case n of (n0, n1, n2) \<Rightarrow> 8 * n0 * n1 * n2)"

definition init_phase ::
  "'w file_handle_callbacks \<Rightarrow> (ulong \<Rightarrow> bool) \<Rightarrow> config \<Rightarrow> string \<Rightarrow> 'w proc \<Rightarrow> 'w failure + 'w proc" where
  "init_phase io heap cfg path s =
     (case fh_open io In_fh path False True True (world s) of
        (ok, w) \<Rightarrow>
          (case (if ok then Inr (s\<lparr>world := w\<rparr>)
                 else if fh_errno io w \<noteq> EEXIST then die io Create_input (s\<lparr>world := w\<rparr>)
                 else
                   (case fh_open io In_fh path False False True w of
                      (ok, w) \<Rightarrow>
                        if ok then Inr (s\<lparr>world := w\<rparr>)
                        else die io Truncate_input (s\<lparr>world := w\<rparr>))) of
             Inl e \<Rightarrow> Inl e
           | Inr s \<Rightarrow>
               (case init_input io heap (use_algorithm cfg) (n_dims cfg) s of
                  Inl e \<Rightarrow> Inl e
                | Inr s \<Rightarrow> Inr (s\<lparr>world := fh_close io In_fh (world s)\<rparr>))))"

definition open_input ::
  "'w file_handle_callbacks \<Rightarrow> config \<Rightarrow> string \<Rightarrow> 'w proc \<Rightarrow> 'w failure + 'w proc" where
  "open_input io cfg path s =
     (case fh_open io In_fh path True False False (world s) of
        (ok, w) \<Rightarrow>
          if \<not> ok then die io Open_input (s\<lparr>world := w\<rparr>)
          else
            (case fh_stat io In_fh w of
               (None, w) \<Rightarrow> die io Stat_input (s\<lparr>world := w\<rparr>)
             | (Some st_size, w) \<Rightarrow>
                 check_size Input_too_small Input_too_large (should_use_exact_dims cfg)
                   (data_len (n_dims cfg)) st_size (s\<lparr>world := w\<rparr>)))"

text \<open>
  The output file is opened with \<^verbatim>\<open>should_create\<close>. Only when that open fails with
  \<open>EEXIST\<close> is the file opened again without it and its size tested.
\<close>

definition open_output ::
  "'w file_handle_callbacks \<Rightarrow> config \<Rightarrow> string \<Rightarrow> 'w proc \<Rightarrow> 'w failure + 'w proc" where
  "open_output io cfg path s =
     (case fh_open io Out_fh path False True False (world s) of
        (ok, w) \<Rightarrow>
          if ok then Inr (s\<lparr>world := w\<rparr>)
          else if fh_errno io w \<noteq> EEXIST then die io Create_output (s\<lparr>world := w\<rparr>)
          else
            (case fh_open io Out_fh path False False False w of
               (ok, w) \<Rightarrow>
                 if \<not> ok then die io Open_output (s\<lparr>world := w\<rparr>)
                 else
                   (case fh_stat io Out_fh w of
                      (None, w) \<Rightarrow> die io Stat_output (s\<lparr>world := w\<rparr>)
                    | (Some st_size, w) \<Rightarrow>
                        check_size Output_too_small Output_too_large (should_use_exact_dims cfg)
                          (data_len (n_dims cfg)) st_size (s\<lparr>world := w\<rparr>))))"

text \<open>
  \<open>Inr\<close> is exit status 0: the \<^verbatim>\<open>exit(0)\<close> after an initialization without an
  output file, and the \<^verbatim>\<open>return rc\<close> at the end.
\<close>

definition main :: "'w file_handle_callbacks \<Rightarrow> (ulong \<Rightarrow> bool) \<Rightarrow> config \<Rightarrow> 'w proc \<Rightarrow> 'w failure + 'w proc" where
  "main io heap cfg s =
     (case n_dims cfg of (n0, n1, n2) \<Rightarrow>
        if n0 = 0 \<or> n1 = 0 \<or> n2 = 0 then Inl (Exit Bad_dimension EINVAL, s)
        else
          (case input_file cfg of
             None \<Rightarrow> Inl (Exit No_input_name EINVAL, s)
           | Some ipath \<Rightarrow>
               (case (if should_init_input cfg then init_phase io heap cfg ipath s else Inr s) of
                  Inl e \<Rightarrow> Inl e
                | Inr s \<Rightarrow>
                    (case output_file cfg of
                       None \<Rightarrow>
                         if should_init_input cfg then Inr s
                         else Inl (Exit No_output_name EINVAL, s)
                     | Some opath \<Rightarrow>
                         (case open_input io cfg ipath s of
                            Inl e \<Rightarrow> Inl e
                          | Inr s \<Rightarrow>
                              (case open_output io cfg opath s of
                                 Inl e \<Rightarrow> Inl e
                               | Inr s \<Rightarrow>
                                   (case convert io heap (use_algorithm cfg) (n_dims cfg) s of
                                      Inl e \<Rightarrow> Inl e
                                    | Inr s \<Rightarrow>
                                        Inr (s\<lparr>world :=
                                               fh_close io In_fh (fh_close io Out_fh (world s))\<rparr>))))))))"

text \<open>The program as it is run: the backend chosen by \<^verbatim>\<open>use_io_driver\<close>.\<close>

definition run :: "(ulong \<Rightarrow> bool) \<Rightarrow> config \<Rightarrow> sys \<Rightarrow> sys failure + sys proc" where
  "run heap cfg w = main (io_driver_callbacks (use_io_driver cfg)) heap cfg \<lparr>world = w, trace = []\<rparr>"

section \<open>Notions used to state the properties\<close>

text \<open>The state in which a run ends, whether it returned or exited.\<close>

definition final_state :: "'w failure + 'w proc \<Rightarrow> 'w proc" where
  "final_state r = (case r of Inl (f, s) \<Rightarrow> s | Inr s \<Rightarrow> s)"

text \<open>
  A monitor for the calls on the output file. It reads the list of calls from the
  first to the last and keeps a flag and the offset of an output seek that no
  write has followed yet. The flag stays true as long as every output seek goes to
  \<open>8 * o\<close> for an element index \<open>o\<close> below \<open>N\<close>, and every output write comes
  directly after an output seek (calls on the input file may lie between) and ends
  at or before byte \<open>8 * N\<close>.
\<close>

definition out_monitor :: "nat \<Rightarrow> io_event \<Rightarrow> bool \<times> int option \<Rightarrow> bool \<times> int option" where
  "out_monitor N ev st =
     (case ev of
        Ev_seek fh off r \<Rightarrow>
          if fh = Out_fh then (fst st \<and> 0 \<le> off \<and> off mod 8 = 0 \<and> off div 8 < int N, Some off)
          else st
      | Ev_write fh len r \<Rightarrow>
          if fh = Out_fh then
            (fst st \<and> (case snd st of None \<Rightarrow> False | Some off \<Rightarrow> off + int (unat len) \<le> 8 * int N),
             None)
          else st
      | Ev_read fh len r \<Rightarrow> st)"

definition out_safe :: "nat \<Rightarrow> io_event list \<Rightarrow> bool" where
  "out_safe N tr = fst (fold (out_monitor N) tr (True, None))"

text \<open>
  What is known of the reads of a run. \<open>reads_positive\<close>: every read made so far
  returned more than 0. \<open>read_exit_ok\<close>, of an exit: a read that returned 0 is
  followed only by the exit \<open>Unexpected_eof\<close> with status \<open>EINVAL\<close>, and a read
  that returned less than 0 only by the exit \<open>Read_input\<close> with status \<^verbatim>\<open>errno\<close>.
\<close>

definition reads_positive :: "'w proc \<Rightarrow> bool" where
  "reads_positive s = list_all (\<lambda>ev. case ev of Ev_read fh len r \<Rightarrow> 0 < r | _ \<Rightarrow> True) (trace s)"

definition read_exit_ok :: "'w file_handle_callbacks \<Rightarrow> 'w failure \<Rightarrow> bool" where
  "read_exit_ok io e =
     list_all (\<lambda>ev. case ev of
                 Ev_read fh len r \<Rightarrow>
                   (if r = 0 then fst e = Exit Unexpected_eof EINVAL
                    else if r < 0 then fst e = Exit Read_input (fh_errno io (world (snd e)))
                    else True)
               | _ \<Rightarrow> True) (trace (snd e))"

definition calls_safe :: "nat \<Rightarrow> 'w proc \<Rightarrow> bool" where
  "calls_safe N s = out_safe N (trace s)"

text \<open>
  A computation that starts in a state with \<open>P\<close> either returns a value with \<open>R\<close>
  or fails with \<open>Q\<close>.
\<close>

definition triple :: "('a \<Rightarrow> bool) \<Rightarrow> ('a \<Rightarrow> 'e + 'b) \<Rightarrow> ('b \<Rightarrow> bool) \<Rightarrow> ('e \<Rightarrow> bool) \<Rightarrow> bool" where
  "triple P c R Q = (\<forall>s. P s \<longrightarrow> (case c s of Inl e \<Rightarrow> Q e | Inr x \<Rightarrow> R x))"

subsection \<open>Example states\<close>

text \<open>
  A file system with the given files and no open handle; the state of a process
  whose input handle is open on \<^verbatim>\<open>in\<close> and whose output handle is open on
  \<^verbatim>\<open>out\<close>, before any call; and the configuration of a run on these two paths.
\<close>

definition ex_world :: "(string \<times> elem list) list \<Rightarrow> nat \<Rightarrow> sys" where
  "ex_world files cap = \<lparr>fs = map_of files, oft = (\<lambda>fh. None), errno = 0, fs_capacity = cap\<rparr>"

definition ex_open :: "elem list \<Rightarrow> elem list \<Rightarrow> nat \<Rightarrow> sys proc" where
  "ex_open c_in c_out cap =
     \<lparr>world = \<lparr>fs = [''in'' \<mapsto> c_in, ''out'' \<mapsto> c_out],
               oft = [In_fh \<mapsto> \<lparr>ofd_path = ''in'', ofd_pos = 0, ofd_writable = False\<rparr>,
                      Out_fh \<mapsto> \<lparr>ofd_path = ''out'', ofd_pos = 0, ofd_writable = True\<rparr>],
               errno = 0, fs_capacity = cap\<rparr>,
      trace = []\<rparr>"

definition ex_config :: "io_driver_t \<Rightarrow> algorithm_t \<Rightarrow> bool \<Rightarrow> dims \<Rightarrow> config" where
  "ex_config d a init n =
     \<lparr>input_file = Some ''in'', output_file = Some ''out'', use_io_driver = d,
      should_use_exact_dims = False, use_algorithm = a, should_init_input = init, n_dims = n\<rparr>"

section \<open>Notions for the conversion over the two backends\<close>













definition conversion_algorithms :: "algorithm_t set" where
  "conversion_algorithms =
     {algorithm_ijk_map, algorithm_jki_map, algorithm_jik_map, algorithm_vector_input,
      algorithm_vector_output, algorithm_matrix}"

section \<open>Notions for the initializer over the two backends\<close>

text \<open>
  The values of a loop variable, in the order of the loop, and the list of the values
  \<open>f x y z\<close> in the order in which three nested loops over \<open>x\<close>, \<open>y\<close> and \<open>z\<close>
  reach them.
\<close>

definition upto_ul :: "ulong \<Rightarrow> ulong list" where
  "upto_ul n = map of_nat [0..<unat n]"

definition traverse3 :: "ulong \<Rightarrow> ulong \<Rightarrow> ulong \<Rightarrow> (ulong \<Rightarrow> ulong \<Rightarrow> ulong \<Rightarrow> 'a) \<Rightarrow> 'a list" where
  "traverse3 a b c f =
     concat (map (\<lambda>x. concat (map (\<lambda>y. map (f x y) (upto_ul c)) (upto_ul b))) (upto_ul a))"

text \<open>
  What each variant of the initializer stores, step by step: the loops of the variant
  in their order in the source, and the offset function of its assignment to \<^verbatim>\<open>v\<close>.
\<close>

definition init_values :: "algorithm_t \<Rightarrow> dims \<Rightarrow> elem list" where
  "init_values a n =
     (case n of (n0, n1, n2) \<Rightarrow>
        (case a of
           algorithm_ijk_map \<Rightarrow> traverse3 n0 n1 n2 (\<lambda>i j k. double_of_ulong (offset_ijk n i j k))
         | algorithm_jki_map \<Rightarrow> traverse3 n1 n2 n0 (\<lambda>j k i. double_of_ulong (offset_jki n i j k))
         | algorithm_jik_map \<Rightarrow> traverse3 n0 n1 n2 (\<lambda>i j k. double_of_ulong (offset_jik n i j k))
         | algorithm_vector_input \<Rightarrow> traverse3 n1 n2 n0 (\<lambda>j k i. double_of_ulong (offset_jki n i j k))
         | algorithm_vector_output \<Rightarrow> traverse3 n1 n0 n2 (\<lambda>j i k. double_of_ulong (offset_jki n i j k))
         | algorithm_matrix \<Rightarrow> traverse3 n1 n2 n0 (\<lambda>j k i. double_of_ulong (offset_jki n i j k))
         | _ \<Rightarrow> []))"

text \<open>
  The state of the input file during the initialization: the input handle is open
  for writing on the file \<open>ip\<close>, which holds \<open>c\<close>, and stands at its end; the other
  files are those of \<open>ot\<close>. In \<open>init_app\<close> the list \<open>rest\<close> is what remains to be
  written of \<open>whole\<close>. \<open>init_fits\<close>: the file system has room for \<open>whole\<close>.
\<close>

definition init_st ::
  "string \<Rightarrow> nat \<Rightarrow> (string \<Rightarrow> elem list option) \<Rightarrow> elem list \<Rightarrow> sys proc \<Rightarrow> bool" where
  "init_st ip cap ot c s \<longleftrightarrow>
     fs (world s) = ot(ip \<mapsto> c) \<and> fs_capacity (world s) = cap
     \<and> length c \<le> cap \<and> 8 * length c < 2 ^ 63
     \<and> (case oft (world s) In_fh of
          None \<Rightarrow> False
        | Some d \<Rightarrow> ofd_path d = ip \<and> ofd_writable d \<and> ofd_pos d = 8 * length c)"

definition init_app ::
  "string \<Rightarrow> nat \<Rightarrow> (string \<Rightarrow> elem list option) \<Rightarrow> elem list \<Rightarrow> elem list \<Rightarrow> sys proc \<Rightarrow> bool" where
  "init_app ip cap ot whole rest s \<longleftrightarrow> (\<exists>c. init_st ip cap ot c s \<and> c @ rest = whole)"

definition init_fits :: "nat \<Rightarrow> elem list \<Rightarrow> bool" where
  "init_fits cap whole \<longleftrightarrow> length whole \<le> cap \<and> 8 * length whole < 2 ^ 63"

text \<open>
  The resources an initialization needs: room for the input file, and the buffer of
  the variant. The map variants write one element per step.
\<close>

definition init_resources :: "(ulong \<Rightarrow> bool) \<Rightarrow> algorithm_t \<Rightarrow> dims \<Rightarrow> nat \<Rightarrow> bool" where
  "init_resources heap a n cap \<longleftrightarrow>
     n_elems n \<le> cap \<and> 8 * n_elems n < 2 ^ 63
     \<and> (case n of (n0, n1, n2) \<Rightarrow>
          (case a of
             algorithm_vector_input \<Rightarrow> heap (8 * n0)
           | algorithm_vector_output \<Rightarrow> heap (8 * n2)
           | algorithm_matrix \<Rightarrow> heap (8 * n0 * n2)
           | _ \<Rightarrow> True))"

definition map_algorithms :: "algorithm_t set" where
  "map_algorithms = {algorithm_ijk_map, algorithm_jki_map, algorithm_jik_map}"

text \<open>
  An example state: the input handle is open for writing on the empty file
  \<^verbatim>\<open>in\<close>. The runs of the scenario with the dimensions \<open>(2, 2, 2)\<close>: one that only
  initializes the input file with \<^verbatim>\<open>jki_map\<close>, and one that converts the file of the
  doubles of 0 to 7.
\<close>

definition ex_init_open :: "nat \<Rightarrow> sys proc" where
  "ex_init_open cap =
     \<lparr>world = \<lparr>fs = [''in'' \<mapsto> []],
               oft = [In_fh \<mapsto> \<lparr>ofd_path = ''in'', ofd_pos = 0, ofd_writable = True\<rparr>],
               errno = 0, fs_capacity = cap\<rparr>,
      trace = []\<rparr>"

definition ex_init_run :: "io_driver_t \<Rightarrow> sys failure + sys proc" where
  "ex_init_run d =
     run (\<lambda>len. True) ((ex_config d algorithm_jki_map True (2, 2, 2))\<lparr>output_file := None\<rparr>)
       (ex_world [] 100)"

definition ex_conv_run :: "io_driver_t \<Rightarrow> algorithm_t \<Rightarrow> sys failure + sys proc" where
  "ex_conv_run d a =
     run (\<lambda>len. True) (ex_config d a False (2, 2, 2))
       (ex_world [(''in'', map double_of_ulong [0, 1, 2, 3, 4, 5, 6, 7])] 100)"


section \<open>Loops and offsets: basic facts\<close>

lemma unat_succ: "(i::ulong) < n \<Longrightarrow> unat (i + 1) = Suc (unat i)"
proof -
  assume "i < n"
  then have "unat i < unat n" by (simp add: word_less_nat_alt)
  moreover have "unat n < 2 ^ 64" using unsigned_less [of n] by simp
  ultimately have "unat i + unat (1 :: ulong) < 2 ^ LENGTH(64)" by simp
  then have "unat (i + 1) = unat i + unat (1 :: ulong)" by (simp only: unat_add_lem)
  then show ?thesis by simp
qed

text \<open>
  The rule for a counting loop: an invariant indexed by the counter, kept by every
  iteration that returns, and a property \<open>Q\<close> of every failure.
\<close>

lemma for_ul_rule:
  assumes "I i s" and "i \<le> n"
    and "\<And>k s. i \<le> k \<Longrightarrow> k < n \<Longrightarrow> I k s \<Longrightarrow>
           (case body k s of Inl e \<Rightarrow> Q e | Inr s' \<Rightarrow> I (k + 1) s')"
  shows "case for_ul i n body s of Inl e \<Rightarrow> Q e | Inr s' \<Rightarrow> I n s'"
  using assms
proof (induction i n body s rule: for_ul.induct)
  case (1 i n body s)
  show ?case
  proof (cases "i < n")
    case False
    with "1.prems"(2) have "i = n" by simp
    with "1.prems"(1) show ?thesis by (simp add: for_ul.simps)
  next
    case True
    then have le: "i + 1 \<le> n"
      by (simp add: word_le_nat_alt word_less_nat_alt unat_succ [OF True])
    from True have ii: "i \<le> i + 1"
      by (simp add: word_le_nat_alt unat_succ [OF True])
    show ?thesis
    proof (cases "body i s")
      case (Inl e)
      with "1.prems"(3) [of i s] True "1.prems"(1) show ?thesis
        by (simp add: for_ul.simps)
    next
      case (Inr s')
      with "1.prems"(3) [of i s] True "1.prems"(1) have I': "I (i + 1) s'" by simp
      have "case for_ul (i + 1) n body s' of Inl e \<Rightarrow> Q e | Inr s' \<Rightarrow> I n s'"
      proof (rule "1.IH" [OF True Inr I' le])
        fix k s assume "i + 1 \<le> k" "k < n" "I k s"
        with ii show "case body k s of Inl e \<Rightarrow> Q e | Inr s' \<Rightarrow> I (k + 1) s'"
          using "1.prems"(3) [of k s] by simp
      qed
      with True Inr show ?thesis by (simp add: for_ul.simps)
    qed
  qed
qed

text \<open>Mixed-radix numbers with three digits.\<close>

lemma mr2_less: "a < A \<Longrightarrow> b < B \<Longrightarrow> a * B + b < A * (B::nat)"
proof -
  assume a: "a < A" and b: "b < B"
  have "a * B + b < Suc a * B" using b by simp
  also have "\<dots> \<le> A * B" using a by (simp only: mult_le_mono1 Suc_leI)
  finally show ?thesis .
qed

lemma mr3_less: "a < A \<Longrightarrow> b < B \<Longrightarrow> c < C \<Longrightarrow> (a * B + b) * C + c < A * B * (C::nat)"
  by (rule mr2_less [OF mr2_less])

lemma mr3_inj:
  assumes "b < B" "b' < B" "c < C" "c' < C"
    and eq: "(a * B + b) * C + c = (a' * B + b') * C + (c'::nat)"
  shows "a = a' \<and> b = b' \<and> c = c'"
proof -
  have m: "\<And>x y z::nat. z < y \<Longrightarrow> (x * y + z) mod y = z"
    by simp
  have d: "\<And>x y z::nat. z < y \<Longrightarrow> (x * y + z) div y = x"
    by simp
  from arg_cong [OF eq, of "\<lambda>x. x mod C"] assms(3,4) have c: "c = c'"
    by (simp only: m)
  from arg_cong [OF eq, of "\<lambda>x. x div C"] assms(3,4) have ab: "a * B + b = a' * B + b'"
    by (simp only: d)
  from arg_cong [OF ab, of "\<lambda>x. x mod B"] assms(1,2) have b: "b = b'"
    by (simp only: m)
  from arg_cong [OF ab, of "\<lambda>x. x div B"] assms(1,2) have "a = a'"
    by (simp only: d)
  with b c show ?thesis by simp
qed

lemma mr3_surj:
  assumes "x < A * B * (C::nat)"
  shows "\<exists>a<A. \<exists>b<B. \<exists>c<C. x = (a * B + b) * C + c"
proof -
  from assms have C: "0 < C" by (cases C) simp_all
  from assms have B: "0 < B" by (cases B) simp_all
  from assms have "x div C < A * B" by (simp add: less_mult_imp_div_less)
  then have a: "x div C div B < A" by (simp add: less_mult_imp_div_less)
  have b: "x div C mod B < B" using B by simp
  have c: "x mod C < C" using C by simp
  have "x = (x div C div B * B + x div C mod B) * C + x mod C" by simp
  with a b c show ?thesis by blast
qed


text \<open>When the number of elements fits 64 bits, the offsets do not wrap.\<close>

lemma unat_word_of_nat_less: "x < 2 ^ 64 \<Longrightarrow> unat (of_nat x :: ulong) = x"
  by (simp add: unat_of_nat)

lemma word_of_nat_less_iff: "a < unat (n::ulong) \<Longrightarrow> (of_nat a :: ulong) < n"
proof -
  assume a: "a < unat n"
  have "unat n < 2 ^ 64" using unsigned_less [of n] by simp
  with a have "unat (of_nat a :: ulong) = a" by (simp add: unat_of_nat)
  with a show ?thesis by (simp add: word_less_nat_alt)
qed

lemma unat_offset_ijk:
  assumes "i < n0" "j < n1" "k < n2" and N: "n_elems (n0, n1, n2) < 2 ^ 64"
  shows "unat (offset_ijk (n0, n1, n2) i j k) = (unat i * unat n1 + unat j) * unat n2 + unat k"
proof -
  let ?X = "(unat i * unat n1 + unat j) * unat n2 + unat k"
  from assms(1-3) have "?X < unat n0 * unat n1 * unat n2"
    by (intro mr3_less) (simp_all add: word_less_nat_alt)
  with N have "?X < 2 ^ 64" by (simp add: n_elems_def)
  then have "unat (of_nat ?X :: ulong) = ?X" by (rule unat_word_of_nat_less)
  moreover have "offset_ijk (n0, n1, n2) i j k = of_nat ?X" by (simp add: algebra_simps)
  ultimately show ?thesis by simp
qed

lemma unat_offset_jki:
  assumes "i < n0" "j < n1" "k < n2" and N: "n_elems (n0, n1, n2) < 2 ^ 64"
  shows "unat (offset_jki (n0, n1, n2) i j k) = (unat j * unat n2 + unat k) * unat n0 + unat i"
proof -
  let ?X = "(unat j * unat n2 + unat k) * unat n0 + unat i"
  from assms(1-3) have "?X < unat n1 * unat n2 * unat n0"
    by (intro mr3_less) (simp_all add: word_less_nat_alt)
  with N have "?X < 2 ^ 64" by (simp add: n_elems_def mult_ac)
  then have "unat (of_nat ?X :: ulong) = ?X" by (rule unat_word_of_nat_less)
  moreover have "offset_jki (n0, n1, n2) i j k = of_nat ?X" by (simp add: algebra_simps)
  ultimately show ?thesis by simp
qed

lemma unat_offset_jik:
  assumes "i < n0" "j < n1" "k < n2" and N: "n_elems (n0, n1, n2) < 2 ^ 64"
  shows "unat (offset_jik (n0, n1, n2) i j k) = (unat j * unat n0 + unat i) * unat n2 + unat k"
proof -
  let ?X = "(unat j * unat n0 + unat i) * unat n2 + unat k"
  from assms(1-3) have "?X < unat n1 * unat n0 * unat n2"
    by (intro mr3_less) (simp_all add: word_less_nat_alt)
  with N have "?X < 2 ^ 64" by (simp add: n_elems_def mult_ac)
  then have "unat (of_nat ?X :: ulong) = ?X" by (rule unat_word_of_nat_less)
  moreover have "offset_jik (n0, n1, n2) i j k = of_nat ?X" by (simp add: algebra_simps)
  ultimately show ?thesis by simp
qed

lemma bij_cube:
  assumes val: "\<And>i j k. i < n0 \<Longrightarrow> j < n1 \<Longrightarrow> k < n2 \<Longrightarrow> F i j k < N"
    and inj: "\<And>i j k i' j' k'. i < n0 \<Longrightarrow> j < n1 \<Longrightarrow> k < n2 \<Longrightarrow> i' < n0 \<Longrightarrow> j' < n1 \<Longrightarrow> k' < n2 \<Longrightarrow>
                F i j k = F i' j' k' \<Longrightarrow> i = i' \<and> j = j' \<and> k = k'"
    and surj: "\<And>x. x < N \<Longrightarrow> \<exists>i<n0. \<exists>j<n1. \<exists>k<n2. F i j k = x"
  shows "bij_betw (\<lambda>(i, j, k). F i j k) (cube (n0, n1, n2)) {..<N::nat}"
  unfolding bij_betw_def
proof
  show "inj_on (\<lambda>(i, j, k). F i j k) (cube (n0, n1, n2))"
    by (rule inj_onI) (auto simp: cube_def dest: inj)
  show "(\<lambda>(i, j, k). F i j k) ` cube (n0, n1, n2) = {..<N}"
  proof (rule set_eqI)
    fix x
    show "x \<in> (\<lambda>(i, j, k). F i j k) ` cube (n0, n1, n2) \<longleftrightarrow> x \<in> {..<N}"
    proof
      assume "x \<in> (\<lambda>(i, j, k). F i j k) ` cube (n0, n1, n2)"
      then show "x \<in> {..<N}" by (auto simp: cube_def val)
    next
      assume "x \<in> {..<N}"
      then have "x < N" by simp
      from surj [OF this] obtain i j k where "i < n0" "j < n1" "k < n2" "F i j k = x" by blast
      then have "(i, j, k) \<in> cube (n0, n1, n2)" and "(\<lambda>(i, j, k). F i j k) (i, j, k) = x"
        by (simp_all add: cube_def)
      then show "x \<in> (\<lambda>(i, j, k). F i j k) ` cube (n0, n1, n2)" by blast
    qed
  qed
qed

lemma cube_decode:
  assumes "a < unat (A::ulong)" "b < unat (B::ulong)" "c < unat (C::ulong)"
  obtains x y z where "x < A" "y < B" "z < C" "unat x = a" "unat y = b" "unat z = c"
proof -
  have u: "unat (of_nat a :: ulong) = a" if "a < unat n" for a and n :: ulong
  proof -
    have "unat n < 2 ^ 64" using unsigned_less [of n] by simp
    with that show ?thesis by (simp add: unat_of_nat)
  qed
  show ?thesis
    using that [of "of_nat a" "of_nat b" "of_nat c"] assms
    by (simp add: word_of_nat_less_iff u)
qed

section \<open>Rules for runs\<close>

text \<open>The equations by which a run on concrete data is computed.\<close>

lemmas run_defs =
  convert_def conv_ijk_map_def conv_jki_map_def conv_jik_map_def conv_vector_input_def
  conv_vector_output_def conv_matrix_def map_step_def vi_step_def vi_write_step_def
  vo_step_def vo_read_step_def matrix_step_def transpose_step_def v1_index_def v2_index_def
  buf_store_def buf_set_def io_seek_def io_read_def io_write_def die_def
  init_input_def init_ijk_map_def init_jki_map_def init_jik_map_def init_vector_input_def
  init_vector_output_def init_matrix_def init_map_step_def init_vi_step_def init_vo_step_def
  init_matrix_step_def
  file_handle_callbacks_fd_def file_handle_callbacks_stream_def io_driver_callbacks_def
  file_handle_open_fd_def file_handle_stat_fd_def file_handle_seek_fd_def file_handle_read_fd_def
  file_handle_write_fd_def file_handle_close_fd_def
  file_handle_open_stream_def file_handle_stat_stream_def file_handle_seek_stream_def
  file_handle_read_stream_def file_handle_write_stream_def file_handle_close_stream_def
  sys_open_def sys_fstat_def sys_lseek_def sys_read_def sys_write_def file_of_def write_at_def
  main_def run_def init_phase_def open_input_def open_output_def check_size_def data_len_def
  final_state_def for_ul.simps Let_def
  ENOENT_def EBADF_def ENOMEM_def EEXIST_def EINVAL_def EFBIG_def ENOSPC_def

lemma tripleI: "(\<And>s. P s \<Longrightarrow> (case c s of Inl e \<Rightarrow> Q e | Inr x \<Rightarrow> R x)) \<Longrightarrow> triple P c R Q"
  by (simp add: triple_def)

lemma tripleD: "triple P c R Q \<Longrightarrow> P s \<Longrightarrow> (case c s of Inl e \<Rightarrow> Q e | Inr x \<Rightarrow> R x)"
  by (simp add: triple_def)

lemma triple_for:
  assumes "\<And>k. k < n \<Longrightarrow> triple I (body k) I Q"
  shows "triple I (for_ul 0 n body) I Q"
proof (rule tripleI)
  fix s assume "I s"
  then show "case for_ul 0 n body s of Inl e \<Rightarrow> Q e | Inr x \<Rightarrow> I x"
    by (rule for_ul_rule [where I = "\<lambda>k. I"]) (simp_all add: tripleD [OF assms])
qed

lemma seq_rule:
  assumes "case r of Inl e \<Rightarrow> Q e | Inr x \<Rightarrow> P x"
    and "\<And>x. P x \<Longrightarrow> case f x of Inl e \<Rightarrow> Q e | Inr y \<Rightarrow> R y"
  shows "case (case r of Inl e \<Rightarrow> Inl e | Inr x \<Rightarrow> f x) of Inl e \<Rightarrow> Q e | Inr y \<Rightarrow> R y"
  using assms by (cases r) auto

lemma final_stateI:
  "(case r of Inl e \<Rightarrow> P (snd e) | Inr s \<Rightarrow> P s) \<Longrightarrow> P (final_state r)"
  by (cases r) (auto simp: final_state_def)

lemmas io_defs = io_seek_def io_read_def io_write_def die_def case_prod_beta

lemma unat8: "unat (8::ulong) = 8" by simp

lemma sint_8_times:
  assumes "unat (x::ulong) < N" and "8 * N < (2::nat) ^ 63"
  shows "sint (8 * x) = 8 * int (unat x)"
proof -
  have p: "(2::nat) ^ 63 = 9223372036854775808" "(2::nat) ^ 64 = 18446744073709551616" by simp_all
  from assms have b: "8 * unat x < 9223372036854775808" unfolding p by linarith
  then have "unat (8::ulong) * unat x < 2 ^ LENGTH(64)" unfolding unat8 by (simp add: p)
  then have "unat (8 * x) = unat (8::ulong) * unat x" by (simp only: unat_mult_lem)
  then have u: "uint (8 * x) = 8 * int (unat x)" unfolding unat8 by (simp only: uint_nat of_nat_mult of_nat_numeral)
  have "sint (8 * x) = signed_take_bit (LENGTH(64) - Suc 0) (uint (8 * x))"
    by (rule sint_uint)
  also have "\<dots> = uint (8 * x)"
  proof (rule signed_take_bit_int_eq_self)
    have "- (2 ^ (LENGTH(64) - Suc 0)) \<le> (0::int)" by simp
    also have "0 \<le> uint (8 * x)" by simp
    finally show "- (2 ^ (LENGTH(64) - Suc 0)) \<le> uint (8 * x)" .
    from b have "int (8 * unat x) < int 9223372036854775808" by (simp only: of_nat_less_iff)
    then have "8 * int (unat x) < 9223372036854775808" by (simp only: of_nat_mult of_nat_numeral)
    then show "uint (8 * x) < 2 ^ (LENGTH(64) - Suc 0)" unfolding u by simp
  qed
  finally show ?thesis using u by simp
qed

lemma seek_ok:
  assumes "unat (x::ulong) < N" and "8 * N < (2::nat) ^ 63"
  shows "0 \<le> sint (8 * x) \<and> sint (8 * x) mod 8 = 0 \<and> sint (8 * x) div 8 < int N
         \<and> sint (8 * x) + 8 \<le> 8 * int N"
proof -
  from assms(1) have "int (unat x) < int N" by (simp only: of_nat_less_iff)
  then show ?thesis unfolding sint_8_times [OF assms] by simp
qed


lemma unat_8_times:
  assumes "8 * unat (x::ulong) < 2 ^ 64"
  shows "unat (8 * x) = 8 * unat x"
proof -
  from assms have "unat (8::ulong) * unat x < 2 ^ LENGTH(64)" unfolding unat8 by simp
  then have "unat (8 * x) = unat (8::ulong) * unat x" by (simp only: unat_mult_lem)
  then show ?thesis by (simp only: unat8)
qed

lemma seek_write_ok:
  assumes x: "unat (x::ulong) + m \<le> N" and m: "0 < m" and len: "unat (len::ulong) = 8 * m"
    and N: "8 * N < (2::nat) ^ 63"
  shows "0 \<le> sint (8 * x) \<and> sint (8 * x) mod 8 = 0 \<and> sint (8 * x) div 8 < int N
         \<and> sint (8 * x) + int (unat len) \<le> 8 * int N"
proof -
  from x m have lt: "unat x < N" by simp
  from x have "int (unat x) + int m \<le> int N" by (simp only: of_nat_add [symmetric] of_nat_le_iff)
  moreover from lt have "int (unat x) < int N" by (simp only: of_nat_less_iff)
  ultimately show ?thesis
    unfolding sint_8_times [OF lt N] len by simp
qed

subsection \<open>Offsets within the cube\<close>

lemma offset_jik_less:
  assumes r: "i < n0" "j < n1" "k < n2" and N: "n_elems (n0, n1, n2) < 2 ^ 64"
  shows "unat (offset_jik (n0, n1, n2) i j k) < n_elems (n0, n1, n2)"
proof -
  have "(unat j * unat n0 + unat i) * unat n2 + unat k < unat n1 * unat n0 * unat n2"
    using r by (intro mr3_less) (simp_all add: word_less_nat_alt)
  then show ?thesis
    unfolding unat_offset_jik [OF r N] n_elems_def prod.case by (simp add: mult_ac)
qed


lemma n_elems_small: "8 * n_elems n < 2 ^ 63 \<Longrightarrow> n_elems n < 2 ^ 64"
  by simp

lemma pow2_nat: "(2::nat) ^ 63 = 9223372036854775808" "(2::nat) ^ 64 = 18446744073709551616"
  by simp_all

lemma nat_le_prod3:
  fixes a b c :: nat
  shows "0 < b \<Longrightarrow> a * c \<le> a * b * c"
    and "0 < a \<Longrightarrow> 0 < b \<Longrightarrow> c \<le> a * b * c"
    and "0 < b \<Longrightarrow> 0 < c \<Longrightarrow> a \<le> a * b * c"
  by (cases b; cases a; cases c; simp add: algebra_simps)+

lemma unat_pos: "0 < (n::ulong) \<Longrightarrow> 0 < unat n"
  by (simp add: word_less_nat_alt)

text \<open>A row of \<open>n2\<close> output elements, and a block of \<open>n0 * n2\<close>, end within the data.\<close>

lemma row_fits:
  assumes r: "i < n0" "j < n1" and N: "n_elems (n0, n1, n2) < 2 ^ 64" and pos: "0 < n2"
  shows "unat (offset_jik (n0, n1, n2) i j 0) + unat n2 \<le> n_elems (n0, n1, n2)"
proof -
  have "unat j * unat n0 + unat i < unat n1 * unat n0"
    using r by (intro mr2_less) (simp_all add: word_less_nat_alt)
  then have "Suc (unat j * unat n0 + unat i) * unat n2 \<le> unat n1 * unat n0 * unat n2"
    by (intro mult_le_mono1) simp
  also have "unat n1 * unat n0 * unat n2 = n_elems (n0, n1, n2)"
    by (simp add: n_elems_def mult_ac)
  finally have "Suc (unat j * unat n0 + unat i) * unat n2 \<le> n_elems (n0, n1, n2)" .
  moreover have "unat (offset_jik (n0, n1, n2) i j 0) = (unat j * unat n0 + unat i) * unat n2"
    using unat_offset_jik [OF r pos N] by simp
  ultimately show ?thesis by simp
qed

lemma block_fits:
  assumes r: "j < n1" and N: "n_elems (n0, n1, n2) < 2 ^ 64" and pos: "0 < n0" "0 < n2"
  shows "unat (offset_jik (n0, n1, n2) 0 j 0) + unat n0 * unat n2 \<le> n_elems (n0, n1, n2)"
proof -
  have "Suc (unat j) * (unat n0 * unat n2) \<le> unat n1 * (unat n0 * unat n2)"
    using r by (intro mult_le_mono1) (simp add: word_less_nat_alt Suc_leI)
  also have "unat n1 * (unat n0 * unat n2) = n_elems (n0, n1, n2)"
    by (simp add: n_elems_def mult_ac)
  finally have "Suc (unat j) * (unat n0 * unat n2) \<le> n_elems (n0, n1, n2)" .
  moreover have "unat (offset_jik (n0, n1, n2) 0 j 0) = unat j * (unat n0 * unat n2)"
    using unat_offset_jik [OF pos(1) r pos(2) N] by simp
  ultimately show ?thesis by simp
qed

lemma unat_row_len:
  assumes "8 * n_elems (n0, n1, n2) < 2 ^ 63" "0 < n0" "0 < n1"
  shows "unat (8 * n2) = 8 * unat n2"
proof -
  have "unat n2 \<le> unat n0 * unat n1 * unat n2"
    by (rule nat_le_prod3(2) [OF unat_pos unat_pos]) fact+
  with assms(1) have "8 * unat n2 < 2 ^ 64"
    unfolding n_elems_def prod.case pow2_nat by linarith
  then show ?thesis by (rule unat_8_times)
qed

lemma unat_col_len:
  assumes "8 * n_elems (n0, n1, n2) < 2 ^ 63" "0 < n1" "0 < n2"
  shows "unat (8 * n0) = 8 * unat n0"
proof -
  have "unat n0 \<le> unat n0 * unat n1 * unat n2"
    by (rule nat_le_prod3(3) [OF unat_pos unat_pos]) fact+
  with assms(1) have "8 * unat n0 < 2 ^ 64"
    unfolding n_elems_def prod.case pow2_nat by linarith
  then show ?thesis by (rule unat_8_times)
qed

lemma plane_le:
  assumes "0 < n1"
  shows "unat n0 * unat n2 \<le> n_elems (n0, n1, n2)"
  unfolding n_elems_def prod.case by (rule nat_le_prod3(1) [OF unat_pos]) fact


lemma unat_block_len:
  assumes "8 * n_elems (n0, n1, n2) < 2 ^ 63" "0 < n1"
  shows "unat (8 * n0 * n2) = 8 * (unat n0 * unat n2)"
    and "unat (2 * (8 * n0 * n2)) = 16 * (unat n0 * unat n2)"
proof -
  from plane_le [OF assms(2), of n0 n2] assms(1)
  have b: "16 * (unat n0 * unat n2) < 2 ^ 64" unfolding pow2_nat by linarith
  have "8 * n0 * n2 = (of_nat (8 * (unat n0 * unat n2)) :: ulong)" by simp
  also have "unat \<dots> = 8 * (unat n0 * unat n2)"
    using b by (intro unat_word_of_nat_less) simp
  finally show "unat (8 * n0 * n2) = 8 * (unat n0 * unat n2)" .
  have "2 * (8 * n0 * n2) = (of_nat (16 * (unat n0 * unat n2)) :: ulong)" by simp
  also have "unat \<dots> = 16 * (unat n0 * unat n2)"
    using b by (intro unat_word_of_nat_less) simp
  finally show "unat (2 * (8 * n0 * n2)) = 16 * (unat n0 * unat n2)" .
qed

section \<open>The offset functions enumerate the range\<close>

text \<open>
  Claim C2, as amended. For every dimension triple whose product \<open>n0 * n1 * n2\<close> is
  below \<open>2 ^ 64\<close>, each of \<open>offset_ijk\<close>, \<open>offset_jki\<close> and \<open>offset_jik\<close> is a
  bijection from the index cube onto \<open>{0, ..., n0 * n1 * n2 - 1}\<close>: every value
  of the range is the offset of exactly one index triple. (The triple need not be
  positive: with a zero dimension the cube and the range are both empty.)
\<close>

theorem offsets_bijective:
  assumes N: "n_elems (n0, n1, n2) < 2 ^ 64"
  shows "bij_betw (\<lambda>(i, j, k). unat (offset_ijk (n0, n1, n2) i j k)) (cube (n0, n1, n2))
           {..<n_elems (n0, n1, n2)}
       \<and> bij_betw (\<lambda>(i, j, k). unat (offset_jki (n0, n1, n2) i j k)) (cube (n0, n1, n2))
           {..<n_elems (n0, n1, n2)}
       \<and> bij_betw (\<lambda>(i, j, k). unat (offset_jik (n0, n1, n2) i j k)) (cube (n0, n1, n2))
           {..<n_elems (n0, n1, n2)}"
proof (intro conjI)
  show "bij_betw (\<lambda>(i, j, k). unat (offset_ijk (n0, n1, n2) i j k)) (cube (n0, n1, n2))
           {..<n_elems (n0, n1, n2)}"
  proof (rule bij_cube)
    fix i j k assume r: "i < n0" "j < n1" "k < n2"
    then show "unat (offset_ijk (n0, n1, n2) i j k) < n_elems (n0, n1, n2)"
      unfolding unat_offset_ijk [OF r N] n_elems_def prod.case
      by (intro mr3_less) (simp_all add: word_less_nat_alt)
  next
    fix i j k i' j' k'
    assume r: "i < n0" "j < n1" "k < n2" and r': "i' < n0" "j' < n1" "k' < n2"
      and "unat (offset_ijk (n0, n1, n2) i j k) = unat (offset_ijk (n0, n1, n2) i' j' k')"
    then have "(unat i * unat n1 + unat j) * unat n2 + unat k
             = (unat i' * unat n1 + unat j') * unat n2 + unat k'"
      by (simp only: unat_offset_ijk [OF r N] unat_offset_ijk [OF r' N])
    from mr3_inj [OF _ _ _ _ this] r r' show "i = i' \<and> j = j' \<and> k = k'"
      by (simp add: word_less_nat_alt word_unat_eq_iff)
  next
    fix x assume "x < n_elems (n0, n1, n2)"
    then have "x < unat n0 * unat n1 * unat n2" by (simp add: n_elems_def)
    from mr3_surj [OF this] obtain a b c where abc: "a < unat n0" "b < unat n1" "c < unat n2"
      and x: "x = (a * unat n1 + b) * unat n2 + c" by blast
    from cube_decode [OF abc] obtain i j k where r: "i < n0" "j < n1" "k < n2"
      and u: "unat i = a" "unat j = b" "unat k = c" by blast
    from unat_offset_ijk [OF r N] u x have "unat (offset_ijk (n0, n1, n2) i j k) = x" by simp
    with r show "\<exists>i<n0. \<exists>j<n1. \<exists>k<n2. unat (offset_ijk (n0, n1, n2) i j k) = x" by blast
  qed
next
  show "bij_betw (\<lambda>(i, j, k). unat (offset_jki (n0, n1, n2) i j k)) (cube (n0, n1, n2))
           {..<n_elems (n0, n1, n2)}"
  proof (rule bij_cube)
    fix i j k assume r: "i < n0" "j < n1" "k < n2"
    have "(unat j * unat n2 + unat k) * unat n0 + unat i < unat n1 * unat n2 * unat n0"
      using r by (intro mr3_less) (simp_all add: word_less_nat_alt)
    then show "unat (offset_jki (n0, n1, n2) i j k) < n_elems (n0, n1, n2)"
      unfolding unat_offset_jki [OF r N] n_elems_def prod.case by (simp add: mult_ac)
  next
    fix i j k i' j' k'
    assume r: "i < n0" "j < n1" "k < n2" and r': "i' < n0" "j' < n1" "k' < n2"
      and "unat (offset_jki (n0, n1, n2) i j k) = unat (offset_jki (n0, n1, n2) i' j' k')"
    then have "(unat j * unat n2 + unat k) * unat n0 + unat i
             = (unat j' * unat n2 + unat k') * unat n0 + unat i'"
      by (simp only: unat_offset_jki [OF r N] unat_offset_jki [OF r' N])
    from mr3_inj [OF _ _ _ _ this] r r' show "i = i' \<and> j = j' \<and> k = k'"
      by (simp add: word_less_nat_alt word_unat_eq_iff)
  next
    fix x assume "x < n_elems (n0, n1, n2)"
    then have "x < unat n1 * unat n2 * unat n0" by (simp add: n_elems_def mult_ac)
    from mr3_surj [OF this] obtain a b c where abc: "a < unat n1" "b < unat n2" "c < unat n0"
      and x: "x = (a * unat n2 + b) * unat n0 + c" by blast
    from cube_decode [OF abc] obtain j k i where r: "i < n0" "j < n1" "k < n2"
      and u: "unat j = a" "unat k = b" "unat i = c" by blast
    from unat_offset_jki [OF r N] u x have "unat (offset_jki (n0, n1, n2) i j k) = x" by simp
    with r show "\<exists>i<n0. \<exists>j<n1. \<exists>k<n2. unat (offset_jki (n0, n1, n2) i j k) = x" by blast
  qed
next
  show "bij_betw (\<lambda>(i, j, k). unat (offset_jik (n0, n1, n2) i j k)) (cube (n0, n1, n2))
           {..<n_elems (n0, n1, n2)}"
  proof (rule bij_cube)
    fix i j k assume r: "i < n0" "j < n1" "k < n2"
    have "(unat j * unat n0 + unat i) * unat n2 + unat k < unat n1 * unat n0 * unat n2"
      using r by (intro mr3_less) (simp_all add: word_less_nat_alt)
    then show "unat (offset_jik (n0, n1, n2) i j k) < n_elems (n0, n1, n2)"
      unfolding unat_offset_jik [OF r N] n_elems_def prod.case by (simp add: mult_ac)
  next
    fix i j k i' j' k'
    assume r: "i < n0" "j < n1" "k < n2" and r': "i' < n0" "j' < n1" "k' < n2"
      and "unat (offset_jik (n0, n1, n2) i j k) = unat (offset_jik (n0, n1, n2) i' j' k')"
    then have "(unat j * unat n0 + unat i) * unat n2 + unat k
             = (unat j' * unat n0 + unat i') * unat n2 + unat k'"
      by (simp only: unat_offset_jik [OF r N] unat_offset_jik [OF r' N])
    from mr3_inj [OF _ _ _ _ this] r r' show "i = i' \<and> j = j' \<and> k = k'"
      by (simp add: word_less_nat_alt word_unat_eq_iff)
  next
    fix x assume "x < n_elems (n0, n1, n2)"
    then have "x < unat n1 * unat n0 * unat n2" by (simp add: n_elems_def mult_ac)
    from mr3_surj [OF this] obtain a b c where abc: "a < unat n1" "b < unat n0" "c < unat n2"
      and x: "x = (a * unat n0 + b) * unat n2 + c" by blast
    from cube_decode [OF abc] obtain j i k where r: "i < n0" "j < n1" "k < n2"
      and u: "unat j = a" "unat i = b" "unat k = c" by blast
    from unat_offset_jik [OF r N] u x have "unat (offset_jik (n0, n1, n2) i j k) = x" by simp
    with r show "\<exists>i<n0. \<exists>j<n1. \<exists>k<n2. unat (offset_jik (n0, n1, n2) i j k) = x" by blast
  qed
qed

theorem offsets_bijective_witness:
  "n_elems (2, 3, 4) < 2 ^ 64
   \<and> bij_betw (\<lambda>(i, j, k). unat (offset_ijk (2, 3, 4) i j k)) (cube (2, 3, 4)) {..<24}
   \<and> bij_betw (\<lambda>(i, j, k). unat (offset_jki (2, 3, 4) i j k)) (cube (2, 3, 4)) {..<24}
   \<and> bij_betw (\<lambda>(i, j, k). unat (offset_jik (2, 3, 4) i j k)) (cube (2, 3, 4)) {..<24}"
proof -
  have h: "n_elems (2, 3, 4) < 2 ^ 64" by (simp add: n_elems_def)
  have e: "n_elems (2, 3, 4) = 24" by (simp add: n_elems_def)
  show ?thesis using h offsets_bijective [OF h] by (simp only: e simp_thms)
qed

text \<open>
  Claim C2 as stated, for every positive triple, fails where the product wraps: for
  the dimensions \<open>(2 ^ 32, 2 ^ 32, 2)\<close> the index triples \<open>(2 ^ 31, 0, 0)\<close> and
  \<open>(0, 0, 0)\<close> of the cube have the same \<open>offset_ijk\<close>, since
  \<open>2 ^ 31 * 2 * 2 ^ 32 = 2 ^ 64\<close> is 0 in \<^verbatim>\<open>unsigned long\<close>.
\<close>

theorem offsets_overflow_counterexample:
  "(2 ^ 31, 0, 0) \<in> cube (2 ^ 32, 2 ^ 32, 2) \<and> (0, 0, 0) \<in> cube (2 ^ 32, 2 ^ 32, 2)
   \<and> (2 ^ 31 :: ulong, 0 :: ulong, 0 :: ulong) \<noteq> (0, 0, 0)
   \<and> offset_ijk (2 ^ 32, 2 ^ 32, 2) (2 ^ 31) 0 0 = offset_ijk (2 ^ 32, 2 ^ 32, 2) 0 0 0"
  by (simp add: cube_def)

section \<open>Where the conversion seeks and writes on the output\<close>

lemma out_safe_snoc:
  "out_safe N (tr @ [Ev_seek Out_fh off r]) =
     (out_safe N tr \<and> 0 \<le> off \<and> off mod 8 = 0 \<and> off div 8 < int N)"
  "out_safe N (tr @ [Ev_seek Out_fh off r, Ev_write Out_fh len r']) =
     (out_safe N tr \<and> 0 \<le> off \<and> off mod 8 = 0 \<and> off div 8 < int N
      \<and> off + int (unat len) \<le> 8 * int N)"
  by (auto simp: out_safe_def out_monitor_def)

lemma out_safe_skip:
  "out_safe N (tr @ Ev_seek In_fh off r # evs) = out_safe N (tr @ evs)"
  "out_safe N (tr @ Ev_read fh len r # evs) = out_safe N (tr @ evs)"
  "out_safe N (tr @ Ev_write In_fh len r # evs) = out_safe N (tr @ evs)"
  by (simp_all add: out_safe_def out_monitor_def)

lemmas safe_simps = calls_safe_def io_defs out_safe_snoc out_safe_skip

lemma map_step_safe:
  assumes off: "unat (offset_jik n i j k) < N" and N: "8 * N < 2 ^ 63"
  shows "triple (calls_safe N) (map_step io n i j k) (calls_safe N) (\<lambda>e. calls_safe N (snd e))"
  using seek_ok [OF off N]
  by (simp add: triple_def map_step_def safe_simps)

lemma vi_write_step_safe:
  assumes off: "unat (offset_jik n i j k) < N" and N: "8 * N < 2 ^ 63"
  shows "triple (calls_safe N) (vi_write_step io n v j k i) (calls_safe N) (\<lambda>e. calls_safe N (snd e))"
  using seek_ok [OF off N]
  by (simp add: triple_def vi_write_step_def safe_simps)

lemma vi_step_safe:
  assumes off: "\<And>i. i < fst n \<Longrightarrow> unat (offset_jik n i j k) < N" and N: "8 * N < 2 ^ 63"
  shows "triple (\<lambda>sv. calls_safe N (fst sv)) (vi_step io n v_len j k)
           (\<lambda>sv. calls_safe N (fst sv)) (\<lambda>e. calls_safe N (snd e))"
proof (rule tripleI)
  fix sv :: "'a proc \<times> elem list"
  assume s: "calls_safe N (fst sv)"
  have inner: "triple (calls_safe N) (for_ul 0 (fst n) (vi_write_step io n v j k))
                 (calls_safe N) (\<lambda>e. calls_safe N (snd e))" for v
    by (intro triple_for vi_write_step_safe off N)
  show "case vi_step io n v_len j k sv of
          Inl e \<Rightarrow> calls_safe N (snd e) | Inr sv' \<Rightarrow> calls_safe N (fst sv')"
    unfolding vi_step_def using s
    apply (simp add: io_defs Let_def)
    apply (intro impI conjI seq_rule [where P = "calls_safe N"] tripleD [OF inner])
     apply (simp_all add: safe_simps)
    done
qed

lemma vo_read_step_safe:
  "triple (\<lambda>sv. calls_safe N (fst sv)) (vo_read_step io n i j k)
     (\<lambda>sv. calls_safe N (fst sv)) (\<lambda>e. calls_safe N (snd e))"
  by (simp add: triple_def vo_read_step_def safe_simps)

lemma vo_step_safe:
  assumes off: "unat (offset_jik n i j 0) + m \<le> N" and m: "0 < m" and len: "unat v_len = 8 * m"
    and N: "8 * N < 2 ^ 63"
  shows "triple (\<lambda>sv. calls_safe N (fst sv)) (vo_step io n v_len j i)
           (\<lambda>sv. calls_safe N (fst sv)) (\<lambda>e. calls_safe N (snd e))"
proof (rule tripleI)
  fix sv :: "'a proc \<times> elem list"
  assume s: "calls_safe N (fst sv)"
  have inner: "triple (\<lambda>sv. calls_safe N (fst sv)) (for_ul 0 (snd (snd n)) (vo_read_step io n i j))
                 (\<lambda>sv. calls_safe N (fst sv)) (\<lambda>e. calls_safe N (snd e))"
    by (intro triple_for vo_read_step_safe)
  show "case vo_step io n v_len j i sv of
          Inl e \<Rightarrow> calls_safe N (snd e) | Inr sv' \<Rightarrow> calls_safe N (fst sv')"
    unfolding vo_step_def
    apply (rule seq_rule [where P = "\<lambda>sv. calls_safe N (fst sv)"])
     apply (rule tripleD [OF inner s])
    using seek_write_ok [OF off m len N]
    apply (simp add: safe_simps)
    done
qed

lemma transpose_no_io:
  "(case (case r of Inl u \<Rightarrow> Inl (Undefined_behaviour, s) | Inr m \<Rightarrow> f m) of
     Inl e \<Rightarrow> Q e | Inr x \<Rightarrow> R x)
   \<longleftrightarrow> (case r of Inl u \<Rightarrow> Q (Undefined_behaviour, s)
        | Inr m \<Rightarrow> (case f m of Inl e \<Rightarrow> Q e | Inr x \<Rightarrow> R x))"
  by (cases r) simp_all

lemma matrix_step_safe:
  assumes off: "unat (offset_jik n 0 j 0) + m \<le> N" and m: "0 < m" and len: "unat v_len = 8 * m"
    and N: "8 * N < 2 ^ 63"
  shows "triple (\<lambda>sv. calls_safe N (fst sv)) (matrix_step io n v_len j)
           (\<lambda>sv. calls_safe N (fst sv)) (\<lambda>e. calls_safe N (snd e))"
  using seek_write_ok [OF off m len N]
  by (simp add: triple_def matrix_step_def safe_simps transpose_no_io split: sum.split)

lemma drop_buffer:
  "(case (case r of Inl e \<Rightarrow> Inl e | Inr sv \<Rightarrow> (case sv of (s, v) \<Rightarrow> Inr s)) of
      Inl e \<Rightarrow> Q e | Inr s \<Rightarrow> P s)
   \<longleftrightarrow> (case r of Inl e \<Rightarrow> Q e | Inr sv \<Rightarrow> P (fst sv))"
  by (cases r) (simp_all add: case_prod_beta)


lemma conv_ijk_map_safe:
  assumes N: "8 * n_elems (n0, n1, n2) < 2 ^ 63"
  shows "triple (calls_safe (n_elems (n0, n1, n2))) (conv_ijk_map io (n0, n1, n2))
           (calls_safe (n_elems (n0, n1, n2))) (\<lambda>e. calls_safe (n_elems (n0, n1, n2)) (snd e))"
  unfolding conv_ijk_map_def prod.case
  by (intro triple_for map_step_safe offset_jik_less N n_elems_small)

lemma conv_jki_map_safe:
  assumes N: "8 * n_elems (n0, n1, n2) < 2 ^ 63"
  shows "triple (calls_safe (n_elems (n0, n1, n2))) (conv_jki_map io (n0, n1, n2))
           (calls_safe (n_elems (n0, n1, n2))) (\<lambda>e. calls_safe (n_elems (n0, n1, n2)) (snd e))"
  unfolding conv_jki_map_def prod.case
  by (intro triple_for map_step_safe offset_jik_less N n_elems_small)

lemma conv_jik_map_safe:
  assumes N: "8 * n_elems (n0, n1, n2) < 2 ^ 63"
  shows "triple (calls_safe (n_elems (n0, n1, n2))) (conv_jik_map io (n0, n1, n2))
           (calls_safe (n_elems (n0, n1, n2))) (\<lambda>e. calls_safe (n_elems (n0, n1, n2)) (snd e))"
  unfolding conv_jik_map_def prod.case
  by (intro triple_for map_step_safe offset_jik_less N n_elems_small)

lemma conv_vector_input_safe:
  assumes N: "8 * n_elems (n0, n1, n2) < 2 ^ 63"
  shows "triple (calls_safe (n_elems (n0, n1, n2))) (conv_vector_input io heap (n0, n1, n2))
           (calls_safe (n_elems (n0, n1, n2))) (\<lambda>e. calls_safe (n_elems (n0, n1, n2)) (snd e))"
proof (rule tripleI)
  fix s :: "'a proc"
  let ?N = "n_elems (n0, n1, n2)"
  assume s: "calls_safe ?N s"
  have loop: "triple (\<lambda>sv. calls_safe ?N (fst sv))
                (for_ul 0 n1 (\<lambda>j. for_ul 0 n2 (\<lambda>k. vi_step io (n0, n1, n2) (8 * n0) j k)))
                (\<lambda>sv. calls_safe ?N (fst sv)) (\<lambda>e. calls_safe ?N (snd e))"
    by (intro triple_for vi_step_safe offset_jik_less N n_elems_small) simp_all
  show "case conv_vector_input io heap (n0, n1, n2) s of
          Inl e \<Rightarrow> calls_safe ?N (snd e) | Inr s' \<Rightarrow> calls_safe ?N s'"
    unfolding conv_vector_input_def prod.case Let_def
    using s by (simp add: drop_buffer tripleD [OF loop])
qed

lemma conv_vector_output_safe:
  assumes N: "8 * n_elems (n0, n1, n2) < 2 ^ 63" and pos: "0 < n0" "0 < n1" "0 < n2"
  shows "triple (calls_safe (n_elems (n0, n1, n2))) (conv_vector_output io heap (n0, n1, n2))
           (calls_safe (n_elems (n0, n1, n2))) (\<lambda>e. calls_safe (n_elems (n0, n1, n2)) (snd e))"
proof (rule tripleI)
  fix s :: "'a proc"
  let ?N = "n_elems (n0, n1, n2)"
  assume s: "calls_safe ?N s"
  have loop: "triple (\<lambda>sv. calls_safe ?N (fst sv))
                (for_ul 0 n1 (\<lambda>j. for_ul 0 n0 (\<lambda>i. vo_step io (n0, n1, n2) (8 * n2) j i)))
                (\<lambda>sv. calls_safe ?N (fst sv)) (\<lambda>e. calls_safe ?N (snd e))"
    by (intro triple_for vo_step_safe [where m = "unat n2"] row_fits N n_elems_small
          unat_pos pos unat_row_len [OF N pos(1,2)])
  show "case conv_vector_output io heap (n0, n1, n2) s of
          Inl e \<Rightarrow> calls_safe ?N (snd e) | Inr s' \<Rightarrow> calls_safe ?N s'"
    unfolding conv_vector_output_def prod.case Let_def
    using s by (simp add: drop_buffer tripleD [OF loop])
qed

lemma conv_matrix_safe:
  assumes N: "8 * n_elems (n0, n1, n2) < 2 ^ 63" and pos: "0 < n0" "0 < n1" "0 < n2"
  shows "triple (calls_safe (n_elems (n0, n1, n2))) (conv_matrix io heap (n0, n1, n2))
           (calls_safe (n_elems (n0, n1, n2))) (\<lambda>e. calls_safe (n_elems (n0, n1, n2)) (snd e))"
proof (rule tripleI)
  fix s :: "'a proc"
  let ?N = "n_elems (n0, n1, n2)"
  assume s: "calls_safe ?N s"
  have m: "0 < unat n0 * unat n2" using unat_pos [OF pos(1)] unat_pos [OF pos(3)] by simp
  have loop: "triple (\<lambda>sv. calls_safe ?N (fst sv))
                (for_ul 0 n1 (matrix_step io (n0, n1, n2) (8 * n0 * n2)))
                (\<lambda>sv. calls_safe ?N (fst sv)) (\<lambda>e. calls_safe ?N (snd e))"
    by (intro triple_for matrix_step_safe [where m = "unat n0 * unat n2"] block_fits N
          n_elems_small pos m unat_block_len(1) [OF N pos(2)])
  show "case conv_matrix io heap (n0, n1, n2) s of
          Inl e \<Rightarrow> calls_safe ?N (snd e) | Inr s' \<Rightarrow> calls_safe ?N s'"
    unfolding conv_matrix_def prod.case Let_def
    using s by (simp add: drop_buffer tripleD [OF loop])
qed

lemma transpose_indices:
  assumes N: "8 * n_elems (n0, n1, n2) < 2 ^ 63" and pos: "0 < n1" and r: "i < n0" "k < n2"
  shows "unat (v1_index (n0, n1, n2) i k) < unat n0 * unat n2"
    and "unat (v2_index (n0, n1, n2) i k) < unat n0 * unat n2"
proof -
  from plane_le [OF pos, of n0 n2] N have b: "unat n0 * unat n2 < 2 ^ 64"
    unfolding pow2_nat by linarith
  have 1: "unat k * unat n0 + unat i < unat n2 * unat n0"
    using r by (intro mr2_less) (simp_all add: word_less_nat_alt)
  have 2: "unat i * unat n2 + unat k < unat n0 * unat n2"
    using r by (intro mr2_less) (simp_all add: word_less_nat_alt)
  have "v1_index (n0, n1, n2) i k = of_nat (unat k * unat n0 + unat i)"
    by (simp add: v1_index_def)
  moreover have "unat (of_nat (unat k * unat n0 + unat i) :: ulong) = unat k * unat n0 + unat i"
    using 1 b by (intro unat_word_of_nat_less) (simp add: mult.commute)
  ultimately show "unat (v1_index (n0, n1, n2) i k) < unat n0 * unat n2"
    using 1 by (simp add: mult.commute)
  have "v2_index (n0, n1, n2) i k = of_nat (unat i * unat n2 + unat k)"
    by (simp add: v2_index_def)
  moreover have "unat (of_nat (unat i * unat n2 + unat k) :: ulong) = unat i * unat n2 + unat k"
    using 2 b by (intro unat_word_of_nat_less) simp
  ultimately show "unat (v2_index (n0, n1, n2) i k) < unat n0 * unat n2"
    using 2 by simp
qed

text \<open>
  Claim C10, as amended. For every positive dimension triple whose data length
  \<open>8 * n0 * n1 * n2\<close> is below \<open>2 ^ 63\<close> (it is then a value of \<^verbatim>\<open>off_t\<close>), every
  conversion algorithm and every backend, whatever the backend returns: in the calls
  of the conversion, from a state with no earlier call to the state it ends in
  (returned or exited), every seek on the output goes to a byte offset \<open>8 * o\<close>
  with \<open>o < n0 * n1 * n2\<close>, and every write on the output comes directly after
  such a seek and ends at or before byte \<open>8 * n0 * n1 * n2\<close>. The indices
  \<open>k * n0 + i\<close> and \<open>i * n2 + k\<close> of the matrix transposition are below
  \<open>n0 * n2\<close> for every \<open>i < n0\<close> and \<open>k < n2\<close>.
\<close>

theorem conversion_output_calls_in_range:
  assumes pos: "0 < n0" "0 < n1" "0 < n2" and N: "8 * n_elems (n0, n1, n2) < 2 ^ 63"
    and tr: "trace s = []"
  shows "out_safe (n_elems (n0, n1, n2)) (trace (final_state (convert io heap a (n0, n1, n2) s)))
       \<and> (\<forall>i k. i < n0 \<and> k < n2 \<longrightarrow>
            unat (v1_index (n0, n1, n2) i k) < unat n0 * unat n2
          \<and> unat (v2_index (n0, n1, n2) i k) < unat n0 * unat n2)"
proof
  let ?N = "n_elems (n0, n1, n2)"
  have s: "calls_safe ?N s" by (simp add: calls_safe_def tr out_safe_def)
  have "case convert io heap a (n0, n1, n2) s of
          Inl e \<Rightarrow> calls_safe ?N (snd e) | Inr s' \<Rightarrow> calls_safe ?N s'"
  proof (cases a)
    case algorithm_ijk_map
    then show ?thesis using tripleD [OF conv_ijk_map_safe [OF N] s] by (simp add: convert_def)
  next
    case algorithm_jki_map
    then show ?thesis using tripleD [OF conv_jki_map_safe [OF N] s] by (simp add: convert_def)
  next
    case algorithm_jik_map
    then show ?thesis using tripleD [OF conv_jik_map_safe [OF N] s] by (simp add: convert_def)
  next
    case algorithm_vector_input
    then show ?thesis using tripleD [OF conv_vector_input_safe [OF N] s] by (simp add: convert_def)
  next
    case algorithm_vector_output
    then show ?thesis using tripleD [OF conv_vector_output_safe [OF N pos] s] by (simp add: convert_def)
  next
    case algorithm_matrix
    then show ?thesis using tripleD [OF conv_matrix_safe [OF N pos] s] by (simp add: convert_def)
  qed (simp_all add: convert_def s)
  then have "calls_safe ?N (final_state (convert io heap a (n0, n1, n2) s))"
    by (rule final_stateI)
  then show "out_safe ?N (trace (final_state (convert io heap a (n0, n1, n2) s)))"
    by (simp add: calls_safe_def)
  show "\<forall>i k. i < n0 \<and> k < n2 \<longrightarrow>
            unat (v1_index (n0, n1, n2) i k) < unat n0 * unat n2
          \<and> unat (v2_index (n0, n1, n2) i k) < unat n0 * unat n2"
    using transpose_indices [OF N pos(2)] by blast
qed

theorem conversion_output_calls_in_range_witness:
  "(0::ulong) < 2
   \<and> 8 * n_elems (2, 2, 2) < 2 ^ 63
   \<and> trace (ex_open [1, 2, 3, 4, 5, 6, 7, 8] [] 10) = []
   \<and> out_safe (n_elems (2, 2, 2))
        (trace (final_state (convert file_handle_callbacks_fd (\<lambda>len. True) algorithm_matrix (2, 2, 2)
           (ex_open [1, 2, 3, 4, 5, 6, 7, 8] [] 10))))
   \<and> unat (v1_index (2, 2, 2) 1 1) < unat (2::ulong) * unat (2::ulong)
   \<and> unat (v2_index (2, 2, 2) 1 1) < unat (2::ulong) * unat (2::ulong)"
proof -
  have pos: "(0::ulong) < 2" by simp
  have N: "8 * n_elems (2, 2, 2) < 2 ^ 63" by (simp add: n_elems_def)
  have tr: "trace (ex_open [1, 2, 3, 4, 5, 6, 7, 8] [] 10) = []" by (simp add: ex_open_def)
  note h = conversion_output_calls_in_range [OF pos pos pos N tr,
      of file_handle_callbacks_fd "\<lambda>len. True" algorithm_matrix]
  from h have "unat (v1_index (2, 2, 2) 1 1) < unat (2::ulong) * unat (2::ulong)
             \<and> unat (v2_index (2, 2, 2) 1 1) < unat (2::ulong) * unat (2::ulong)"
    using pos by (auto simp del: unsigned_numeral)
  with h pos N tr show ?thesis by (simp only: simp_thms)
qed

text \<open>
  Claim C10 as stated, for every positive triple, fails where \<open>8 * n0 * n1 * n2\<close>
  wraps. With the dimensions \<open>(2, 1, 2 ^ 60)\<close> that length is \<open>2 ^ 64\<close>, which is 0
  in \<^verbatim>\<open>size_t\<close>, so an input file of two elements passes the size test. The
  default algorithm then copies the element of \<open>(0, 0, 0)\<close> and, for \<open>(1, 0, 0)\<close>,
  seeks the output to \<^verbatim>\<open>sizeof(double) * offset_jik\<close>, which is \<open>2 ^ 63\<close> and
  as an \<^verbatim>\<open>off_t\<close> is \<open>- 2 ^ 63\<close>: not a place of the data.
\<close>

theorem conversion_output_calls_overflow_counterexample:
  "(0::ulong) < 2 \<and> (0::ulong) < 1 \<and> (0::ulong) < 2 ^ 60
   \<and> n_elems (2, 1, 2 ^ 60) = 2 ^ 61
   \<and> trace (final_state (run (\<lambda>len. True)
        (ex_config io_driver_fd algorithm_jki_map False (2, 1, 2 ^ 60))
        (ex_world [(''in'', [1, 2])] 10)))
      = [Ev_seek In_fh 0 0, Ev_read In_fh 8 8, Ev_seek Out_fh 0 0, Ev_write Out_fh 8 8,
         Ev_seek In_fh 8 8, Ev_read In_fh 8 8, Ev_seek Out_fh (- 9223372036854775808) (- 1)]
   \<and> \<not> out_safe (n_elems (2, 1, 2 ^ 60))
        (trace (final_state (run (\<lambda>len. True)
           (ex_config io_driver_fd algorithm_jki_map False (2, 1, 2 ^ 60))
           (ex_world [(''in'', [1, 2])] 10))))"
  by (simp add: run_defs ex_config_def ex_world_def n_elems_def out_safe_def out_monitor_def)

section \<open>End of file and read errors in the conversion\<close>

lemma reads_positive_exit:
  "reads_positive s \<Longrightarrow> trace s' = trace s \<Longrightarrow> read_exit_ok io (f, s')"
  by (auto simp: reads_positive_def read_exit_ok_def list_all_iff split: io_event.splits)

lemma list_all_reads_exit:
  "list_all (\<lambda>ev. case ev of Ev_read fh len r \<Rightarrow> 0 < r | _ \<Rightarrow> True) tr \<Longrightarrow>
   list_all (\<lambda>ev. case ev of
                 Ev_read fh len r \<Rightarrow>
                   (if r = 0 then f = a else if r < 0 then f = b else True)
               | _ \<Rightarrow> True) tr"
  by (auto simp: list_all_iff split: io_event.splits)

lemmas read_simps = reads_positive_def read_exit_ok_def io_defs list_all_reads_exit

lemma map_step_reads:
  "triple reads_positive (map_step io n i j k) reads_positive (read_exit_ok io)"
  by (simp add: triple_def map_step_def read_simps)

lemma vi_write_step_reads:
  "triple reads_positive (vi_write_step io n v j k i) reads_positive (read_exit_ok io)"
  by (simp add: triple_def vi_write_step_def read_simps)

lemma vi_step_reads:
  "triple (\<lambda>sv. reads_positive (fst sv)) (vi_step io n v_len j k)
     (\<lambda>sv. reads_positive (fst sv)) (read_exit_ok io)"
proof (rule tripleI)
  fix sv :: "'a proc \<times> elem list"
  assume s: "reads_positive (fst sv)"
  have inner: "triple reads_positive (for_ul 0 (fst n) (vi_write_step io n v j k))
                 reads_positive (read_exit_ok io)" for v
    by (intro triple_for vi_write_step_reads)
  show "case vi_step io n v_len j k sv of
          Inl e \<Rightarrow> read_exit_ok io e | Inr sv' \<Rightarrow> reads_positive (fst sv')"
    unfolding vi_step_def using s
    apply (simp add: io_defs Let_def)
    apply (intro impI conjI seq_rule [where P = reads_positive] tripleD [OF inner])
         apply (simp_all add: read_simps)
    done
qed

lemma vo_read_step_reads:
  "triple (\<lambda>sv. reads_positive (fst sv)) (vo_read_step io n i j k)
     (\<lambda>sv. reads_positive (fst sv)) (read_exit_ok io)"
  by (simp add: triple_def vo_read_step_def read_simps)

lemma vo_step_reads:
  "triple (\<lambda>sv. reads_positive (fst sv)) (vo_step io n v_len j i)
     (\<lambda>sv. reads_positive (fst sv)) (read_exit_ok io)"
proof (rule tripleI)
  fix sv :: "'a proc \<times> elem list"
  assume s: "reads_positive (fst sv)"
  have inner: "triple (\<lambda>sv. reads_positive (fst sv)) (for_ul 0 (snd (snd n)) (vo_read_step io n i j))
                 (\<lambda>sv. reads_positive (fst sv)) (read_exit_ok io)"
    by (intro triple_for vo_read_step_reads)
  show "case vo_step io n v_len j i sv of
          Inl e \<Rightarrow> read_exit_ok io e | Inr sv' \<Rightarrow> reads_positive (fst sv')"
    unfolding vo_step_def
    apply (rule seq_rule [where P = "\<lambda>sv. reads_positive (fst sv)"])
     apply (rule tripleD [OF inner s])
    apply (simp add: read_simps)
    done
qed

lemma matrix_step_reads:
  "triple (\<lambda>sv. reads_positive (fst sv)) (matrix_step io n v_len j)
     (\<lambda>sv. reads_positive (fst sv)) (read_exit_ok io)"
  by (simp add: triple_def matrix_step_def read_simps transpose_no_io split: sum.split)

lemma convert_reads:
  "triple reads_positive (convert io heap a n) reads_positive (read_exit_ok io)"
proof (rule tripleI)
  fix s :: "'a proc"
  assume s: "reads_positive s"
  obtain n0 n1 n2 where n: "n = (n0, n1, n2)" by (cases n) auto
  have ex: "read_exit_ok io (Exit Alloc ENOMEM, s)"
    using s by (rule reads_positive_exit) simp
  have vi: "triple (\<lambda>sv. reads_positive (fst sv))
              (for_ul 0 n1 (\<lambda>j. for_ul 0 n2 (\<lambda>k. vi_step io n v_len j k)))
              (\<lambda>sv. reads_positive (fst sv)) (read_exit_ok io)" for v_len
    by (intro triple_for vi_step_reads)
  have vo: "triple (\<lambda>sv. reads_positive (fst sv))
              (for_ul 0 n1 (\<lambda>j. for_ul 0 n0 (\<lambda>i. vo_step io n v_len j i)))
              (\<lambda>sv. reads_positive (fst sv)) (read_exit_ok io)" for v_len
    by (intro triple_for vo_step_reads)
  have mx: "triple (\<lambda>sv. reads_positive (fst sv))
              (for_ul 0 n1 (matrix_step io n v_len))
              (\<lambda>sv. reads_positive (fst sv)) (read_exit_ok io)" for v_len
    by (intro triple_for matrix_step_reads)
  show "case convert io heap a n s of Inl e \<Rightarrow> read_exit_ok io e | Inr s' \<Rightarrow> reads_positive s'"
  proof (cases a)
    case algorithm_ijk_map
    have "triple reads_positive (conv_ijk_map io n) reads_positive (read_exit_ok io)"
      unfolding conv_ijk_map_def n prod.case by (intro triple_for map_step_reads)
    from tripleD [OF this s] algorithm_ijk_map show ?thesis by (simp add: convert_def)
  next
    case algorithm_jki_map
    have "triple reads_positive (conv_jki_map io n) reads_positive (read_exit_ok io)"
      unfolding conv_jki_map_def n prod.case by (intro triple_for map_step_reads)
    from tripleD [OF this s] algorithm_jki_map show ?thesis by (simp add: convert_def)
  next
    case algorithm_jik_map
    have "triple reads_positive (conv_jik_map io n) reads_positive (read_exit_ok io)"
      unfolding conv_jik_map_def n prod.case by (intro triple_for map_step_reads)
    from tripleD [OF this s] algorithm_jik_map show ?thesis by (simp add: convert_def)
  next
    case algorithm_vector_input
    then show ?thesis
      using s ex tripleD [OF vi, of "(s, v)" for v]
      by (simp add: convert_def conv_vector_input_def n Let_def drop_buffer)
  next
    case algorithm_vector_output
    then show ?thesis
      using s ex tripleD [OF vo, of "(s, v)" for v]
      by (simp add: convert_def conv_vector_output_def n Let_def drop_buffer)
  next
    case algorithm_matrix
    then show ?thesis
      using s ex tripleD [OF mx, of "(s, v)" for v]
      by (simp add: convert_def conv_matrix_def n Let_def drop_buffer)
  qed (simp_all add: convert_def s)
qed

text \<open>
  Claim C9. In a conversion by any algorithm on any backend, started with no
  earlier call: if a read returned 0, the run has exited with the message of an
  unexpected end of file and status \<open>EINVAL\<close>; if a read returned less than 0, it
  has exited with the message of a failed read and status \<^verbatim>\<open>errno\<close>. The two exits
  are different.
\<close>

theorem read_failures_distinguished:
  assumes tr: "trace s = []" and r: "r = convert io heap a n s"
  shows "(Ev_read fh len 0 \<in> set (trace (final_state r)) \<longrightarrow>
            r = Inl (Exit Unexpected_eof EINVAL, final_state r))
       \<and> (Ev_read fh len x \<in> set (trace (final_state r)) \<and> x < 0 \<longrightarrow>
            r = Inl (Exit Read_input (fh_errno io (world (final_state r))), final_state r))
       \<and> Exit Unexpected_eof EINVAL \<noteq> Exit Read_input (fh_errno io (world (final_state r)))"
proof -
  have "reads_positive s" by (simp add: reads_positive_def tr)
  from tripleD [OF convert_reads this, of io heap a n]
  have c: "case r of Inl e \<Rightarrow> read_exit_ok io e | Inr s' \<Rightarrow> reads_positive s'"
    by (simp add: r)
  show ?thesis
  proof (cases r)
    case (Inl e)
    with c have "read_exit_ok io e" by simp
    moreover obtain f s' where "e = (f, s')" by (cases e) auto
    ultimately show ?thesis using Inl
      by (auto simp: read_exit_ok_def final_state_def list_all_iff split: io_event.splits if_splits)
  next
    case (Inr s')
    with c have "reads_positive s'" by simp
    then show ?thesis using Inr
      by (auto simp: reads_positive_def final_state_def list_all_iff split: io_event.splits)
  qed
qed

theorem read_failures_distinguished_witness:
  "trace (ex_open [5] [] 10) = []
   \<and> Ev_read In_fh 8 0 \<in> set (trace (final_state
        (convert file_handle_callbacks_fd (\<lambda>len. True) algorithm_jki_map (2, 1, 1) (ex_open [5] [] 10))))
   \<and> convert file_handle_callbacks_fd (\<lambda>len. True) algorithm_jki_map (2, 1, 1) (ex_open [5] [] 10)
      = Inl (Exit Unexpected_eof EINVAL, final_state
          (convert file_handle_callbacks_fd (\<lambda>len. True) algorithm_jki_map (2, 1, 1) (ex_open [5] [] 10)))
   \<and> Ev_read In_fh 0 (- 1) \<in> set (trace (final_state
        (convert file_handle_callbacks_stream (\<lambda>len. True) algorithm_vector_input (2 ^ 61, 1, 1)
           (ex_open [5] [] 10))))
   \<and> (- 1 :: int) < 0
   \<and> convert file_handle_callbacks_stream (\<lambda>len. True) algorithm_vector_input (2 ^ 61, 1, 1)
        (ex_open [5] [] 10)
      = Inl (Exit Read_input (fh_errno file_handle_callbacks_stream (world (final_state
               (convert file_handle_callbacks_stream (\<lambda>len. True) algorithm_vector_input
                  (2 ^ 61, 1, 1) (ex_open [5] [] 10))))),
             final_state (convert file_handle_callbacks_stream (\<lambda>len. True) algorithm_vector_input
               (2 ^ 61, 1, 1) (ex_open [5] [] 10)))"
proof -
  have tr: "trace (ex_open [5] [] 10) = []" by (simp add: ex_open_def)
  have eof: "Ev_read In_fh 8 0 \<in> set (trace (final_state
        (convert file_handle_callbacks_fd (\<lambda>len. True) algorithm_jki_map (2, 1, 1) (ex_open [5] [] 10))))"
    by (simp add: run_defs ex_open_def)
  have neg: "Ev_read In_fh 0 (- 1) \<in> set (trace (final_state
        (convert file_handle_callbacks_stream (\<lambda>len. True) algorithm_vector_input (2 ^ 61, 1, 1)
           (ex_open [5] [] 10))))"
    by (simp add: run_defs ex_open_def)
  from read_failures_distinguished [OF tr refl, of In_fh 8 file_handle_callbacks_fd
      "\<lambda>len. True" algorithm_jki_map "(2, 1, 1)"] eof
  have 1: "convert file_handle_callbacks_fd (\<lambda>len. True) algorithm_jki_map (2, 1, 1) (ex_open [5] [] 10)
      = Inl (Exit Unexpected_eof EINVAL, final_state
          (convert file_handle_callbacks_fd (\<lambda>len. True) algorithm_jki_map (2, 1, 1) (ex_open [5] [] 10)))"
    by blast
  from read_failures_distinguished [OF tr refl, of In_fh 0 file_handle_callbacks_stream
      "\<lambda>len. True" algorithm_vector_input "(2 ^ 61, 1, 1)" "- 1"] neg
  have 2: "convert file_handle_callbacks_stream (\<lambda>len. True) algorithm_vector_input (2 ^ 61, 1, 1)
        (ex_open [5] [] 10)
      = Inl (Exit Read_input (fh_errno file_handle_callbacks_stream (world (final_state
               (convert file_handle_callbacks_stream (\<lambda>len. True) algorithm_vector_input
                  (2 ^ 61, 1, 1) (ex_open [5] [] 10))))),
             final_state (convert file_handle_callbacks_stream (\<lambda>len. True) algorithm_vector_input
               (2 ^ 61, 1, 1) (ex_open [5] [] 10)))"
    by simp
  have 3: "(- 1 :: int) < 0" by simp
  from tr eof 1 neg 3 2 show ?thesis by (intro conjI)
qed

section \<open>Opening a file that exists\<close>

text \<open>
  Claim C4 says that on both backends an open with \<^verbatim>\<open>should_create\<close> fails with
  \<open>EEXIST\<close> when the file exists. The stream backend does so, by its own
  \<^verbatim>\<open>stat\<close> test. The descriptor backend passes \<^verbatim>\<open>O_CREAT\<close> without \<^verbatim>\<open>O_EXCL\<close>,
  so its open succeeds: here on a file of three elements, which it leaves as it
  is, with \<^verbatim>\<open>errno\<close> untouched.
\<close>

theorem open_fd_existing_succeeds:
  "fst (file_handle_open_fd Out_fh ''out'' False True False (ex_world [(''out'', [1, 2, 3])] 10)) = True
   \<and> errno (snd (file_handle_open_fd Out_fh ''out'' False True False
        (ex_world [(''out'', [1, 2, 3])] 10))) = 0
   \<and> fs (snd (file_handle_open_fd Out_fh ''out'' False True False
        (ex_world [(''out'', [1, 2, 3])] 10))) ''out'' = Some [1, 2, 3]
   \<and> fst (file_handle_open_stream Out_fh ''out'' False True False
        (ex_world [(''out'', [1, 2, 3])] 10)) = False
   \<and> errno (snd (file_handle_open_stream Out_fh ''out'' False True False
        (ex_world [(''out'', [1, 2, 3])] 10))) = EEXIST"
  by (simp add: file_handle_open_fd_def file_handle_open_stream_def sys_open_def ex_world_def)

section \<open>An output file that exists\<close>

text \<open>
  Claim C5 says that an output file that exists is opened without truncation and
  its size tested, on both backends. On the descriptor backend the first open
  succeeds (see above), so the size is never tested: with the dimensions
  \<open>(2, 2, 2)\<close> and an output file of one element the run converts and returns, in
  exact-dimensions mode as well with an output file of nine elements, which keeps
  its ninth element. On the stream backend the second open is
  \<^verbatim>\<open>fopen(path, "wb+")\<close>, which empties the file: an output file of the right size
  is emptied and then refused as too small.
\<close>

theorem existing_output_not_validated:
  "run (\<lambda>len. True) (ex_config io_driver_fd algorithm_jki_map False (2, 2, 2))
     (ex_world [(''in'', [10, 11, 12, 13, 14, 15, 16, 17]), (''out'', [9])] 100)
   = Inr (final_state (run (\<lambda>len. True) (ex_config io_driver_fd algorithm_jki_map False (2, 2, 2))
        (ex_world [(''in'', [10, 11, 12, 13, 14, 15, 16, 17]), (''out'', [9])] 100)))
   \<and> fs (world (final_state (run (\<lambda>len. True)
        ((ex_config io_driver_fd algorithm_jki_map False (2, 2, 2))\<lparr>should_use_exact_dims := True\<rparr>)
        (ex_world [(''in'', [10, 11, 12, 13, 14, 15, 16, 17]),
                   (''out'', [1, 2, 3, 4, 5, 6, 7, 8, 9])] 100)))) ''out''
     = Some [10, 12, 11, 13, 14, 16, 15, 17, 9]
   \<and> run (\<lambda>len. True) (ex_config io_driver_stream algorithm_jki_map False (2, 2, 2))
       (ex_world [(''in'', [10, 11, 12, 13, 14, 15, 16, 17]),
                  (''out'', [1, 2, 3, 4, 5, 6, 7, 8])] 100)
     = Inl (Exit Output_too_small EINVAL,
            final_state (run (\<lambda>len. True) (ex_config io_driver_stream algorithm_jki_map False (2, 2, 2))
              (ex_world [(''in'', [10, 11, 12, 13, 14, 15, 16, 17]),
                         (''out'', [1, 2, 3, 4, 5, 6, 7, 8])] 100)))
   \<and> fs (world (final_state (run (\<lambda>len. True) (ex_config io_driver_stream algorithm_jki_map False (2, 2, 2))
        (ex_world [(''in'', [10, 11, 12, 13, 14, 15, 16, 17]),
                   (''out'', [1, 2, 3, 4, 5, 6, 7, 8])] 100)))) ''out''
     = Some []"
  by (simp add: run_defs ex_config_def ex_world_def)

section \<open>Writes of the initializer that fail\<close>

text \<open>
  Claim C6 says that no failed write is ignored. The vector and matrix variants of
  the initializer ignore the result of every write. On a file system with no room
  left, initializing with \<^verbatim>\<open>jki_map\<close> exits with \<open>ENOSPC\<close>; with
  \<^verbatim>\<open>vector_input\<close>, \<^verbatim>\<open>vector_output\<close> or \<^verbatim>\<open>matrix\<close> the one write returns
  \<open>-1\<close> and the run ends with status 0 and an empty input file.
\<close>

theorem init_vector_write_failure_ignored:
  "run (\<lambda>len. True) ((ex_config io_driver_fd algorithm_jki_map True (1, 1, 1))\<lparr>output_file := None\<rparr>)
     (ex_world [] 0)
   = Inl (Exit Write_input ENOSPC,
          final_state (run (\<lambda>len. True)
            ((ex_config io_driver_fd algorithm_jki_map True (1, 1, 1))\<lparr>output_file := None\<rparr>)
            (ex_world [] 0)))
   \<and> run (\<lambda>len. True) ((ex_config io_driver_fd algorithm_vector_input True (1, 1, 1))\<lparr>output_file := None\<rparr>)
       (ex_world [] 0)
     = Inr (final_state (run (\<lambda>len. True)
         ((ex_config io_driver_fd algorithm_vector_input True (1, 1, 1))\<lparr>output_file := None\<rparr>)
         (ex_world [] 0)))
   \<and> trace (final_state (run (\<lambda>len. True)
         ((ex_config io_driver_fd algorithm_vector_input True (1, 1, 1))\<lparr>output_file := None\<rparr>)
         (ex_world [] 0))) = [Ev_write In_fh 8 (- 1)]
   \<and> fs (world (final_state (run (\<lambda>len. True)
         ((ex_config io_driver_fd algorithm_vector_input True (1, 1, 1))\<lparr>output_file := None\<rparr>)
         (ex_world [] 0)))) ''in'' = Some []
   \<and> trace (final_state (run (\<lambda>len. True)
         ((ex_config io_driver_fd algorithm_vector_output True (1, 1, 1))\<lparr>output_file := None\<rparr>)
         (ex_world [] 0))) = [Ev_write In_fh 8 (- 1)]
   \<and> run (\<lambda>len. True) ((ex_config io_driver_fd algorithm_vector_output True (1, 1, 1))\<lparr>output_file := None\<rparr>)
       (ex_world [] 0)
     = Inr (final_state (run (\<lambda>len. True)
         ((ex_config io_driver_fd algorithm_vector_output True (1, 1, 1))\<lparr>output_file := None\<rparr>)
         (ex_world [] 0)))
   \<and> trace (final_state (run (\<lambda>len. True)
         ((ex_config io_driver_stream algorithm_matrix True (1, 1, 1))\<lparr>output_file := None\<rparr>)
         (ex_world [] 0))) = [Ev_write In_fh 8 (- 1)]
   \<and> run (\<lambda>len. True) ((ex_config io_driver_stream algorithm_matrix True (1, 1, 1))\<lparr>output_file := None\<rparr>)
       (ex_world [] 0)
     = Inr (final_state (run (\<lambda>len. True)
         ((ex_config io_driver_stream algorithm_matrix True (1, 1, 1))\<lparr>output_file := None\<rparr>)
         (ex_world [] 0)))"
  by (simp add: run_defs ex_config_def ex_world_def double_of_ulong_def)

section \<open>The conversion over the two backends\<close>

subsection \<open>Seeking, reading and writing\<close>



lemma driver_cases:
  obtains "io_driver_callbacks d = file_handle_callbacks_fd"
  | "io_driver_callbacks d = file_handle_callbacks_stream"
  by (cases d) (simp_all add: io_driver_callbacks_def)



lemma sint_len:
  assumes "unat (len::ulong) = 8 * m" and "8 * m < (2::nat) ^ 63"
  shows "sint len = int (8 * m)"
proof -
  have "sint len = signed_take_bit (LENGTH(64) - Suc 0) (uint len)" by (rule sint_uint)
  also have "\<dots> = uint len"
  proof (rule signed_take_bit_int_eq_self)
    have "- (2 ^ (LENGTH(64) - Suc 0)) \<le> (0::int)" by simp
    also have "0 \<le> uint len" by simp
    finally show "- (2 ^ (LENGTH(64) - Suc 0)) \<le> uint len" .
    from assms have "int (unat len) < int (2 ^ 63)" by (simp only: of_nat_less_iff)
    then show "uint len < 2 ^ (LENGTH(64) - Suc 0)" by simp
  qed
  also have "\<dots> = int (unat len)" by simp
  finally show ?thesis using assms(1) by simp
qed













lemma word_less_succ: "(k::ulong) < n \<Longrightarrow> k' < k + 1 \<longleftrightarrow> k' < k \<or> k' = k"
  by (auto simp: word_less_nat_alt unat_succ word_unat_eq_iff)

lemma triple_for_idx:
  assumes "\<And>k. k < n \<Longrightarrow> triple (I k) (body k) (I (k + 1)) Q"
  shows "triple (I 0) (for_ul 0 n body) (I n) Q"
proof (rule tripleI)
  fix s assume "I 0 s"
  then show "case for_ul 0 n body s of Inl e \<Rightarrow> Q e | Inr x \<Rightarrow> I n x"
    by (rule for_ul_rule) (simp_all add: tripleD [OF assms])
qed

lemma triple_for_union:
  assumes "\<And>k W. k < n \<Longrightarrow> triple (P W) (body k) (P (W \<union> S k)) Q"
  shows "triple (P W) (for_ul 0 n body) (P (W \<union> (\<Union>k\<in>{k. k < n}. S k))) Q"
proof -
  have "triple (P (W \<union> (\<Union>k'\<in>{k'. k' < 0}. S k'))) (for_ul 0 n body)
          (P (W \<union> (\<Union>k'\<in>{k'. k' < n}. S k'))) Q"
  proof (rule triple_for_idx [where I = "\<lambda>k. P (W \<union> (\<Union>k'\<in>{k'. k' < k}. S k'))"])
    fix k assume k: "k < n"
    have "{k'. k' < k + 1} = insert k {k'. k' < k}"
      using word_less_succ [OF k] by auto
    then have "W \<union> (\<Union>k'\<in>{k'. k' < k + 1}. S k') = (W \<union> (\<Union>k'\<in>{k'. k' < k}. S k')) \<union> S k"
      by auto
    then show "triple (P (W \<union> (\<Union>k'\<in>{k'. k' < k}. S k'))) (body k)
                 (P (W \<union> (\<Union>k'\<in>{k'. k' < k + 1}. S k'))) Q"
      using assms [OF k, of "W \<union> (\<Union>k'\<in>{k'. k' < k}. S k')"] by simp
  qed
  then show ?thesis by simp
qed

lemma triple_weaken:
  "triple P c R Q \<Longrightarrow> (\<And>s. P' s \<Longrightarrow> P s) \<Longrightarrow> (\<And>x. R x \<Longrightarrow> R' x) \<Longrightarrow> triple P' c R' Q"
  unfolding triple_def by (metis (mono_tags, lifting) sum.case_eq_if)


subsection \<open>Reading a run of the input, writing a run of the output\<close>













lemma drop_buffer_triple:
  assumes "triple P c (\<lambda>sv. R (fst sv)) Q" and "P x"
  shows "case (case c x of Inl e \<Rightarrow> Inl e | Inr sv \<Rightarrow> (case sv of (s, v) \<Rightarrow> Inr s)) of
           Inl e \<Rightarrow> Q e | Inr s \<Rightarrow> R s"
  using tripleD [OF assms] by (cases "c x") (simp_all add: case_prod_beta)

subsection \<open>\<^verbatim>\<open>vector_input\<close>\<close>






subsection \<open>\<^verbatim>\<open>vector_output\<close>\<close>







subsection \<open>\<^verbatim>\<open>matrix\<close>\<close>



lemma mr2_inj:
  assumes "b < C" "b' < C" and eq: "a * C + b = a' * C + (b'::nat)"
  shows "a = a' \<and> b = b'"
proof -
  from assms(1) have "(a * C + b) div C = a" "(a * C + b) mod C = b" by simp_all
  moreover from assms(2) have "(a' * C + b') div C = a'" "(a' * C + b') mod C = b'" by simp_all
  ultimately show ?thesis using eq by simp
qed











subsection \<open>All six algorithms convert alike\<close>





section \<open>The initializer over the two backends\<close>

subsection \<open>Loops that append\<close>

lemma length_upto_ul [simp]: "length (upto_ul n) = unat n"
  by (simp add: upto_ul_def)

lemma nth_upto_ul: "k < n \<Longrightarrow> upto_ul n ! unat k = k"
  by (simp add: upto_ul_def word_less_nat_alt)

lemma upto_ul_drop:
  assumes "k < n"
  shows "drop (unat k) (upto_ul n) = k # drop (unat (k + 1)) (upto_ul n)"
proof -
  from assms have "unat k < length (upto_ul n)" by (simp add: word_less_nat_alt)
  from Cons_nth_drop_Suc [OF this] show ?thesis
    by (simp add: nth_upto_ul [OF assms] unat_succ [OF assms])
qed

lemma triple_for_list:
  assumes step: "\<And>k rest. k < n \<Longrightarrow> triple (I (g k @ rest)) (body k) (I rest) Q"
  shows "triple (I (concat (map g (upto_ul n)) @ rest)) (for_ul 0 n body) (I rest) Q"
proof -
  let ?J = "\<lambda>k::ulong. I (concat (map g (drop (unat k) (upto_ul n))) @ rest)"
  have "triple (?J 0) (for_ul 0 n body) (?J n) Q"
  proof (rule triple_for_idx [where I = ?J])
    fix k assume k: "k < n"
    show "triple (?J k) (body k) (?J (k + 1)) Q"
      unfolding upto_ul_drop [OF k] using step [OF k] by simp
  qed
  then show ?thesis by simp
qed

subsection \<open>Writing at the end of the file\<close>

lemma write_in:
  assumes st: "init_st ip cap ot c s"
    and len: "unat len = 8 * m" and m: "0 < m" "m \<le> length buf" "8 * m < 2 ^ 63"
  shows "\<exists>r s'. io_write (io_driver_callbacks d) In_fh buf len s = (r, s')
           \<and> (0 < r \<longrightarrow> init_st ip cap ot (c @ take m buf) s')
           \<and> (length c + m \<le> cap \<and> 8 * (length c + m) < 2 ^ 63 \<longrightarrow> 0 < r)"
proof -
  from len m(1) have l0: "len \<noteq> 0" by (auto simp: unat_eq_zero)
  have sl: "sint len = int (8 * m)" using len m(3) by (rule sint_len)
  from m have ne: "take m buf \<noteq> []" by auto
  have wa: "write_at c (length c) xs = c @ xs" for xs by (simp add: write_at_def)
  from m(2) have lt: "length (take m buf) = m" by simp
  show ?thesis
    using st l0 ne m(1)
    by (cases d)
       (auto simp: io_write_def io_driver_callbacks_def file_handle_callbacks_fd_def
          file_handle_callbacks_stream_def file_handle_write_fd_def file_handle_write_stream_def
          sys_write_def file_of_def init_st_def len sl Let_def wa lt
          split: option.splits)
qed

lemma init_map_step_append:
  "triple (init_app ip cap ot whole ([v] @ rest)) (init_map_step (io_driver_callbacks d) v)
     (init_app ip cap ot whole rest) (\<lambda>e. \<not> init_fits cap whole)"
proof (rule tripleI)
  fix s assume "init_app ip cap ot whole ([v] @ rest) s"
  then obtain c where st: "init_st ip cap ot c s" and tot: "c @ [v] @ rest = whole"
    by (auto simp: init_app_def)
  have len: "unat (8::ulong) = 8 * 1" by simp
  from write_in [OF st len, of "[v]" d] obtain r s' where
    w: "io_write (io_driver_callbacks d) In_fh [v] 8 s = (r, s')"
    and good: "0 < r \<longrightarrow> init_st ip cap ot (c @ [v]) s'"
    and fit: "length c + 1 \<le> cap \<and> 8 * (length c + 1) < 2 ^ 63 \<longrightarrow> 0 < r"
    by auto
  from tot have l: "length c + 1 \<le> length whole" by auto
  have "\<not> init_fits cap whole" if "r \<le> 0"
  proof
    assume "init_fits cap whole"
    with l have "length c + 1 \<le> cap \<and> 8 * (length c + 1) < 2 ^ 63"
      by (auto simp: init_fits_def)
    with fit that show False by simp
  qed
  moreover have "init_app ip cap ot whole rest s'" if "0 < r"
    using good that tot by (auto simp: init_app_def)
  ultimately show "case init_map_step (io_driver_callbacks d) v s of
          Inl e \<Rightarrow> \<not> init_fits cap whole | Inr s' \<Rightarrow> init_app ip cap ot whole rest s'"
    by (auto simp: init_map_step_def w die_def)
qed

lemma init_map_loops:
  "triple (init_app ip cap ot whole (traverse3 a b c f @ rest))
     (for_ul 0 a (\<lambda>x. for_ul 0 b (\<lambda>y. for_ul 0 c (\<lambda>z.
        init_map_step (io_driver_callbacks d) (f x y z)))))
     (init_app ip cap ot whole rest) (\<lambda>e. \<not> init_fits cap whole)"
proof -
  have inner: "triple (init_app ip cap ot whole (concat (map (\<lambda>z. [f x y z]) (upto_ul c)) @ r))
        (for_ul 0 c (\<lambda>z. init_map_step (io_driver_callbacks d) (f x y z)))
        (init_app ip cap ot whole r) (\<lambda>e. \<not> init_fits cap whole)" for x y r
    by (rule triple_for_list [where I = "init_app ip cap ot whole" and g = "\<lambda>z. [f x y z]"])
       (rule init_map_step_append)
  have c1: "concat (map (\<lambda>z. [f x y z]) (upto_ul c)) = map (f x y) (upto_ul c)" for x y
    by (induction "upto_ul c") (simp_all add: concat_map_singleton)
  have middle: "triple
        (init_app ip cap ot whole (concat (map (\<lambda>y. map (f x y) (upto_ul c)) (upto_ul b)) @ r))
        (for_ul 0 b (\<lambda>y. for_ul 0 c (\<lambda>z. init_map_step (io_driver_callbacks d) (f x y z))))
        (init_app ip cap ot whole r) (\<lambda>e. \<not> init_fits cap whole)" for x r
    by (rule triple_for_list [where I = "init_app ip cap ot whole"
          and g = "\<lambda>y. map (f x y) (upto_ul c)"])
       (rule inner [unfolded c1])
  show ?thesis
    unfolding traverse3_def
    by (rule triple_for_list [where I = "init_app ip cap ot whole"
          and g = "\<lambda>x. concat (map (\<lambda>y. map (f x y) (upto_ul c)) (upto_ul b))"])
       (rule middle)
qed

subsection \<open>Lists of blocks of one length\<close>

lemma length_concat_blocks:
  "(\<And>x. x \<in> set xs \<Longrightarrow> length (G x) = L) \<Longrightarrow> length (concat (map G xs)) = length xs * L"
  by (induction xs) simp_all

lemma nth_concat_blocks:
  assumes "\<And>x. x \<in> set xs \<Longrightarrow> length (G x) = L" and "a < length xs" and "b < L"
  shows "concat (map G xs) ! (a * L + b) = G (xs ! a) ! b"
  using assms
proof (induction xs arbitrary: a)
  case Nil
  then show ?case by simp
next
  case (Cons x xs)
  have lx: "length (G x) = L" by (rule Cons.prems(1)) simp
  show ?case
  proof (cases a)
    case 0
    then show ?thesis using Cons.prems(3) lx by (simp add: nth_append)
  next
    case (Suc a')
    have "concat (map G xs) ! (a' * L + b) = G (xs ! a') ! b"
      using Cons.prems Suc by (intro Cons.IH) simp_all
    then show ?thesis using Suc lx by (simp add: nth_append)
  qed
qed

lemma length_traverse3: "length (traverse3 a b c f) = unat a * unat b * unat c"
proof -
  have 1: "length (concat (map (\<lambda>y. map (f x y) (upto_ul c)) (upto_ul b))) = unat b * unat c" for x
    by (simp add: length_concat_blocks [where L = "unat c"])
  show ?thesis
    unfolding traverse3_def
    by (simp add: length_concat_blocks [where L = "unat b * unat c"] 1)
qed

lemma nth_traverse3:
  assumes "x < a" "y < b" "z < c"
  shows "traverse3 a b c f ! ((unat x * unat b + unat y) * unat c + unat z) = f x y z"
proof -
  from assms have u: "unat x < unat a" "unat y < unat b" "unat z < unat c"
    by (simp_all add: word_less_nat_alt)
  let ?G = "\<lambda>x. concat (map (\<lambda>y. map (f x y) (upto_ul c)) (upto_ul b))"
  have l: "length (?G x') = unat b * unat c" for x'
    by (simp add: length_concat_blocks [where L = "unat c"])
  have yz: "unat y * unat c + unat z < unat b * unat c" using u by (intro mr2_less)
  have "(unat x * unat b + unat y) * unat c + unat z
          = unat x * (unat b * unat c) + (unat y * unat c + unat z)"
    by (simp add: algebra_simps)
  then have "traverse3 a b c f ! ((unat x * unat b + unat y) * unat c + unat z)
          = concat (map ?G (upto_ul a)) ! (unat x * (unat b * unat c) + (unat y * unat c + unat z))"
    by (simp only: traverse3_def)
  also have "\<dots> = ?G (upto_ul a ! unat x) ! (unat y * unat c + unat z)"
    by (rule nth_concat_blocks) (simp_all only: l u yz length_upto_ul)
  also have "\<dots> = ?G x ! (unat y * unat c + unat z)" by (simp only: nth_upto_ul [OF assms(1)])
  also have "\<dots> = map (f x (upto_ul b ! unat y)) (upto_ul c) ! unat z"
    by (rule nth_concat_blocks [where G = "\<lambda>y. map (f x y) (upto_ul c)"]) (simp_all add: u)
  also have "\<dots> = f x y z"
    using u(3) by (simp add: nth_upto_ul [OF assms(2)] nth_upto_ul [OF assms(3)])
  finally show ?thesis .
qed

subsection \<open>Filling a buffer\<close>

lemma fill_loop:
  assumes len: "length v = unat n"
  shows "for_ul 0 n (\<lambda>i. buf_set i (h i)) v = Inr (map h (upto_ul n))"
proof -
  let ?I = "\<lambda>(k::ulong) v'. length v' = unat n \<and> (\<forall>i<k. v' ! unat i = h i)"
  have "triple (?I 0) (for_ul 0 n (\<lambda>i. buf_set i (h i))) (?I n) (\<lambda>e. False)"
  proof (rule triple_for_idx [where I = ?I], rule tripleI)
    fix k v' assume k: "k < n" and inv: "?I k v'"
    then have lt: "unat k < length v'" by (simp add: word_less_nat_alt)
    have "v'[unat k := h k] ! unat i = h i" if "i < k + 1" for i
    proof (cases "i = k")
      case True
      then show ?thesis using lt by simp
    next
      case False
      with that word_less_succ [OF k, of i] have i: "i < k" by simp
      then have "unat i \<noteq> unat k" by (simp add: word_less_nat_alt)
      with inv i show ?thesis by simp
    qed
    with inv lt show "case buf_set k (h k) v' of Inl e \<Rightarrow> False | Inr x \<Rightarrow> ?I (k + 1) x"
      by (simp add: buf_set_def)
  qed
  moreover have "?I 0 v" using len by simp
  ultimately obtain v' where e: "for_ul 0 n (\<lambda>i. buf_set i (h i)) v = Inr v'"
    and l: "length v' = unat n" and vals: "\<And>i. i < n \<Longrightarrow> v' ! unat i = h i"
    by (cases "for_ul 0 n (\<lambda>i. buf_set i (h i)) v") (auto dest!: tripleD)
  have "v' = map h (upto_ul n)"
  proof (rule nth_equalityI)
    show "length v' = length (map h (upto_ul n))" using l by simp
    fix q assume "q < length v'"
    with l have q: "q < unat n" by simp
    have "(0::nat) < unat (1::ulong)" by simp
    from cube_decode [OF q this this] obtain i a b where i: "i < n" "unat i = q" by blast
    from vals [OF i(1)] i(2) q nth_upto_ul [OF i(1)]
    show "v' ! q = map h (upto_ul n) ! q" by simp
  qed
  with e show ?thesis by simp
qed

lemma fill_loop2:
  assumes len: "length v = unat n2 * unat n0" and AC: "unat n2 * unat n0 < 2 ^ 64"
  shows "for_ul 0 n2 (\<lambda>k. for_ul 0 n0 (\<lambda>i. buf_set (n0 * k + i) (h k i))) v
           = Inr (concat (map (\<lambda>k. map (h k) (upto_ul n0)) (upto_ul n2)))"
proof -
  let ?P = "\<lambda>W v'. length v' = unat n2 * unat n0
              \<and> (\<forall>k i. (k, i) \<in> W \<longrightarrow> i < n0 \<longrightarrow> v' ! (unat k * unat n0 + unat i) = h k i)"
  let ?W = "\<Union>k\<in>{k. k < n2}. \<Union>i\<in>{i. i < n0}. {(k, i)}"
  let ?R = "concat (map (\<lambda>k. map (h k) (upto_ul n0)) (upto_ul n2))"
  have idx: "unat (n0 * k + i) = unat k * unat n0 + unat i" if "k < n2" "i < n0" for k i
  proof -
    let ?X = "unat k * unat n0 + unat i"
    from that have "?X < unat n2 * unat n0"
      by (intro mr2_less) (simp_all add: word_less_nat_alt)
    with AC have "?X < 2 ^ 64" by simp
    then have "unat (of_nat ?X :: ulong) = ?X" by (rule unat_word_of_nat_less)
    moreover have "n0 * k + i = of_nat ?X" by simp
    ultimately show ?thesis by (simp only:)
  qed
  have step: "triple (?P W) (buf_set (n0 * k + i) (h k i)) (?P (W \<union> {(k, i)})) (\<lambda>e. False)"
    if k: "k < n2" and i: "i < n0" for k i W
  proof (rule tripleI)
    fix v' assume inv: "?P W v'"
    from k i have lt: "unat k * unat n0 + unat i < unat n2 * unat n0"
      by (intro mr2_less) (simp_all add: word_less_nat_alt)
    have "v'[unat k * unat n0 + unat i := h k i] ! (unat k' * unat n0 + unat i') = h k' i'"
      if mem: "(k', i') \<in> W \<union> {(k, i)}" and i': "i' < n0" for k' i'
    proof (cases "unat k' * unat n0 + unat i' = unat k * unat n0 + unat i")
      case True
      from i i' have "unat i' < unat n0" "unat i < unat n0" by (simp_all add: word_less_nat_alt)
      from mr2_inj [OF this True] have "k' = k" "i' = i" by (simp_all add: word_unat_eq_iff)
      then show ?thesis using lt inv by simp
    next
      case False
      with mem have "(k', i') \<in> W" by auto
      with inv i' False show ?thesis by simp
    qed
    with inv lt
    show "case buf_set (n0 * k + i) (h k i) v' of
            Inl e \<Rightarrow> False | Inr x \<Rightarrow> ?P (W \<union> {(k, i)}) x"
      by (simp add: buf_set_def idx [OF k i])
  qed
  have "triple (?P {}) (for_ul 0 n2 (\<lambda>k. for_ul 0 n0 (\<lambda>i. buf_set (n0 * k + i) (h k i))))
          (?P ({} \<union> ?W)) (\<lambda>e. False)"
    by (intro triple_for_union [where P = ?P] step)
  moreover have "?P {} v" using len by simp
  ultimately obtain v' where
    e: "for_ul 0 n2 (\<lambda>k. for_ul 0 n0 (\<lambda>i. buf_set (n0 * k + i) (h k i))) v = Inr v'"
    and l: "length v' = unat n2 * unat n0"
    and vals: "\<And>k i. k < n2 \<Longrightarrow> i < n0 \<Longrightarrow> v' ! (unat k * unat n0 + unat i) = h k i"
    by (cases "for_ul 0 n2 (\<lambda>k. for_ul 0 n0 (\<lambda>i. buf_set (n0 * k + i) (h k i))) v")
       (auto dest!: tripleD)
  have lR: "length ?R = unat n2 * unat n0"
    by (simp add: length_concat_blocks [where L = "unat n0"])
  have "v' = ?R"
  proof (rule nth_equalityI)
    show "length v' = length ?R" using l lR by simp
    fix q assume "q < length v'"
    with l have q: "q < unat n2 * unat n0" by simp
    then have A: "0 < unat n0" by (cases "unat n0") simp_all
    then have c: "q mod unat n0 < unat n0" by simp
    from q have a: "q div unat n0 < unat n2" by (simp add: less_mult_imp_div_less)
    have "(0::nat) < unat (1::ulong)" by simp
    from cube_decode [OF a this c] obtain k b i where ki: "k < n2" "i < n0"
      and u: "unat k = q div unat n0" "unat i = q mod unat n0" by blast
    have qe: "unat k * unat n0 + unat i = q" unfolding u by simp
    have "?R ! (unat k * unat n0 + unat i) = map (h (upto_ul n2 ! unat k)) (upto_ul n0) ! unat i"
      using ki by (intro nth_concat_blocks) (simp_all add: word_less_nat_alt)
    also have "\<dots> = h k i"
      using ki(2) by (simp add: nth_upto_ul [OF ki(1)] nth_upto_ul [OF ki(2)] word_less_nat_alt)
    finally show "v' ! q = ?R ! q" using vals [OF ki] by (simp only: qe)
  qed
  with e show ?thesis by simp
qed

subsection \<open>The variants that write a buffer\<close>

lemma write_block:
  assumes fits: "init_fits cap whole" and inv: "init_app ip cap ot whole (blk @ rest) s"
    and len: "unat len = 8 * length blk" and ne: "blk \<noteq> []"
  shows "\<exists>r s'. io_write (io_driver_callbacks d) In_fh blk len s = (r, s')
           \<and> init_app ip cap ot whole rest s'"
proof -
  from inv obtain c where st: "init_st ip cap ot c s" and tot: "c @ blk @ rest = whole"
    by (auto simp: init_app_def)
  from tot have l: "length c + length blk \<le> length whole" by auto
  with fits have b: "8 * length blk < 2 ^ 63"
    and f: "length c + length blk \<le> cap \<and> 8 * (length c + length blk) < 2 ^ 63"
    by (auto simp: init_fits_def)
  from ne have m: "0 < length blk" by simp
  from write_in [OF st len m order_refl b, of d] obtain r s' where
    w: "io_write (io_driver_callbacks d) In_fh blk len s = (r, s')"
    and good: "0 < r \<longrightarrow> init_st ip cap ot (c @ blk) s'"
    and fit: "length c + length blk \<le> cap \<and> 8 * (length c + length blk) < 2 ^ 63 \<longrightarrow> 0 < r"
    by auto
  from f fit good have "init_st ip cap ot (c @ blk) s'" by blast
  with tot have "init_app ip cap ot whole rest s'" by (auto simp: init_app_def)
  with w show ?thesis by blast
qed

lemma upto_ul_nonempty: "0 < n \<Longrightarrow> map h (upto_ul n) \<noteq> []"
  by (simp add: upto_ul_def word_less_nat_alt)

lemma init_vi_step_append:
  assumes fits: "init_fits cap whole" and len: "unat v_len = 8 * unat n0" and pos: "0 < n0"
  shows "triple
           (\<lambda>sv. init_app ip cap ot whole
                    (map (\<lambda>i. double_of_ulong (offset_jki (n0, n1, n2) i j k)) (upto_ul n0) @ rest)
                    (fst sv) \<and> length (snd sv) = unat n0)
           (init_vi_step (io_driver_callbacks d) (n0, n1, n2) v_len j k)
           (\<lambda>sv. init_app ip cap ot whole rest (fst sv) \<and> length (snd sv) = unat n0)
           (\<lambda>e. False)"
proof (rule tripleI)
  let ?blk = "map (\<lambda>i. double_of_ulong (offset_jki (n0, n1, n2) i j k)) (upto_ul n0)"
  fix sv :: "sys proc \<times> elem list"
  obtain s v where sv: "sv = (s, v)" by (cases sv)
  assume "init_app ip cap ot whole (?blk @ rest) (fst sv) \<and> length (snd sv) = unat n0"
  with sv have inv: "init_app ip cap ot whole (?blk @ rest) s" and lv: "length v = unat n0"
    by simp_all
  have fill: "for_ul 0 n0 (\<lambda>i. buf_set i (double_of_ulong (offset_jki (n0, n1, n2) i j k))) v
                = Inr ?blk"
    by (rule fill_loop [OF lv])
  have l: "unat v_len = 8 * length ?blk" using len by simp
  from write_block [OF fits inv l upto_ul_nonempty [OF pos], of d] obtain r s' where
    w: "io_write (io_driver_callbacks d) In_fh ?blk v_len s = (r, s')"
    and inv': "init_app ip cap ot whole rest s'" by blast
  show "case init_vi_step (io_driver_callbacks d) (n0, n1, n2) v_len j k sv of
          Inl e \<Rightarrow> False
        | Inr sv' \<Rightarrow> init_app ip cap ot whole rest (fst sv') \<and> length (snd sv') = unat n0"
    unfolding init_vi_step_def sv prod.case fst_conv fill sum.case w
    using inv' by simp
qed

lemma init_vo_step_append:
  assumes fits: "init_fits cap whole" and len: "unat v_len = 8 * unat n2" and pos: "0 < n2"
  shows "triple
           (\<lambda>sv. init_app ip cap ot whole
                    (map (\<lambda>k. double_of_ulong (offset_jki (n0, n1, n2) i j k)) (upto_ul n2) @ rest)
                    (fst sv) \<and> length (snd sv) = unat n2)
           (init_vo_step (io_driver_callbacks d) (n0, n1, n2) v_len j i)
           (\<lambda>sv. init_app ip cap ot whole rest (fst sv) \<and> length (snd sv) = unat n2)
           (\<lambda>e. False)"
proof (rule tripleI)
  let ?blk = "map (\<lambda>k. double_of_ulong (offset_jki (n0, n1, n2) i j k)) (upto_ul n2)"
  fix sv :: "sys proc \<times> elem list"
  obtain s v where sv: "sv = (s, v)" by (cases sv)
  assume "init_app ip cap ot whole (?blk @ rest) (fst sv) \<and> length (snd sv) = unat n2"
  with sv have inv: "init_app ip cap ot whole (?blk @ rest) s" and lv: "length v = unat n2"
    by simp_all
  have fill: "for_ul 0 n2 (\<lambda>k. buf_set k (double_of_ulong (offset_jki (n0, n1, n2) i j k))) v
                = Inr ?blk"
    by (rule fill_loop [OF lv])
  have l: "unat v_len = 8 * length ?blk" using len by simp
  from write_block [OF fits inv l upto_ul_nonempty [OF pos], of d] obtain r s' where
    w: "io_write (io_driver_callbacks d) In_fh ?blk v_len s = (r, s')"
    and inv': "init_app ip cap ot whole rest s'" by blast
  show "case init_vo_step (io_driver_callbacks d) (n0, n1, n2) v_len j i sv of
          Inl e \<Rightarrow> False
        | Inr sv' \<Rightarrow> init_app ip cap ot whole rest (fst sv') \<and> length (snd sv') = unat n2"
    unfolding init_vo_step_def sv prod.case fst_conv snd_conv fill sum.case w
    using inv' by simp
qed

lemma init_matrix_step_append:
  assumes fits: "init_fits cap whole" and len: "unat v_len = 8 * (unat n2 * unat n0)"
    and pos: "0 < n0" "0 < n2" and AC: "unat n2 * unat n0 < 2 ^ 64"
  shows "triple
           (\<lambda>sv. init_app ip cap ot whole
                    (concat (map (\<lambda>k. map (\<lambda>i. double_of_ulong (offset_jki (n0, n1, n2) i j k))
                                         (upto_ul n0)) (upto_ul n2)) @ rest)
                    (fst sv) \<and> length (snd sv) = unat n2 * unat n0)
           (init_matrix_step (io_driver_callbacks d) (n0, n1, n2) v_len j)
           (\<lambda>sv. init_app ip cap ot whole rest (fst sv) \<and> length (snd sv) = unat n2 * unat n0)
           (\<lambda>e. False)"
proof (rule tripleI)
  let ?blk = "concat (map (\<lambda>k. map (\<lambda>i. double_of_ulong (offset_jki (n0, n1, n2) i j k))
                                         (upto_ul n0)) (upto_ul n2))"
  fix sv :: "sys proc \<times> elem list"
  obtain s v where sv: "sv = (s, v)" by (cases sv)
  assume "init_app ip cap ot whole (?blk @ rest) (fst sv) \<and> length (snd sv) = unat n2 * unat n0"
  with sv have inv: "init_app ip cap ot whole (?blk @ rest) s" and lv: "length v = unat n2 * unat n0"
    by simp_all
  have fill: "for_ul 0 n2 (\<lambda>k. for_ul 0 n0 (\<lambda>i.
                 buf_set (n0 * k + i) (double_of_ulong (offset_jki (n0, n1, n2) i j k)))) v
                = Inr ?blk"
    by (rule fill_loop2 [OF lv AC])
  have lb: "length ?blk = unat n2 * unat n0"
    by (simp add: length_concat_blocks [where L = "unat n0"])
  have l: "unat v_len = 8 * length ?blk" using len by (simp only: lb)
  from unat_pos [OF pos(1)] unat_pos [OF pos(2)] have "0 < unat n2 * unat n0" by simp
  then have "0 < length ?blk" by (simp only: lb)
  then have ne: "?blk \<noteq> []" by (rule length_greater_0_conv [THEN iffD1])
  from write_block [OF fits inv l ne, of d] obtain r s' where
    w: "io_write (io_driver_callbacks d) In_fh ?blk v_len s = (r, s')"
    and inv': "init_app ip cap ot whole rest s'" by blast
  show "case init_matrix_step (io_driver_callbacks d) (n0, n1, n2) v_len j sv of
          Inl e \<Rightarrow> False
        | Inr sv' \<Rightarrow> init_app ip cap ot whole rest (fst sv') \<and> length (snd sv') = unat n2 * unat n0"
    unfolding init_matrix_step_def sv prod.case fst_conv snd_conv fill sum.case w
    using inv' lb by simp
qed

subsection \<open>The six variants\<close>

lemma length_init_values:
  "a \<in> conversion_algorithms \<Longrightarrow> length (init_values a (n0, n1, n2)) = n_elems (n0, n1, n2)"
  by (auto simp: conversion_algorithms_def init_values_def length_traverse3 n_elems_def)

lemma init_app_start: "init_st ip cap ot [] s \<Longrightarrow> init_app ip cap ot whole whole s"
  by (auto simp: init_app_def)

lemma init_app_end: "init_app ip cap ot whole [] s \<Longrightarrow> init_st ip cap ot whole s"
  by (auto simp: init_app_def)

lemma init_maps_correct:
  assumes a: "a \<in> map_algorithms"
  shows "triple (init_app ip cap ot (init_values a (n0, n1, n2)) (init_values a (n0, n1, n2)))
           (init_input (io_driver_callbacks d) heap a (n0, n1, n2))
           (init_app ip cap ot (init_values a (n0, n1, n2)) [])
           (\<lambda>e. \<not> init_fits cap (init_values a (n0, n1, n2)))"
proof -
  let ?n = "(n0, n1, n2)"
  from a consider "a = algorithm_ijk_map" | "a = algorithm_jki_map" | "a = algorithm_jik_map"
    by (auto simp: map_algorithms_def)
  then show ?thesis
  proof cases
    case 1
    have e: "init_input (io_driver_callbacks d) heap a ?n = init_ijk_map (io_driver_callbacks d) ?n"
      unfolding 1 by (rule ext) (simp add: init_input_def)
    have v: "init_values a ?n = traverse3 n0 n1 n2 (\<lambda>i j k. double_of_ulong (offset_ijk ?n i j k))"
      unfolding 1 by (simp add: init_values_def)
    show ?thesis
      unfolding e init_ijk_map_def prod.case
      using init_map_loops [where rest = "[]" and whole = "init_values a ?n" and a = n0 and b = n1
          and c = n2 and f = "\<lambda>i j k. double_of_ulong (offset_ijk ?n i j k)"]
      by (simp only: v append_Nil2)
  next
    case 2
    have e: "init_input (io_driver_callbacks d) heap a ?n = init_jki_map (io_driver_callbacks d) ?n"
      unfolding 2 by (rule ext) (simp add: init_input_def)
    have v: "init_values a ?n = traverse3 n1 n2 n0 (\<lambda>j k i. double_of_ulong (offset_jki ?n i j k))"
      unfolding 2 by (simp add: init_values_def)
    show ?thesis
      unfolding e init_jki_map_def prod.case
      using init_map_loops [where rest = "[]" and whole = "init_values a ?n" and a = n1 and b = n2
          and c = n0 and f = "\<lambda>j k i. double_of_ulong (offset_jki ?n i j k)"]
      by (simp only: v append_Nil2)
  next
    case 3
    have e: "init_input (io_driver_callbacks d) heap a ?n = init_jik_map (io_driver_callbacks d) ?n"
      unfolding 3 by (rule ext) (simp add: init_input_def)
    have v: "init_values a ?n = traverse3 n0 n1 n2 (\<lambda>i j k. double_of_ulong (offset_jik ?n i j k))"
      unfolding 3 by (simp add: init_values_def)
    show ?thesis
      unfolding e init_jik_map_def prod.case
      using init_map_loops [where rest = "[]" and whole = "init_values a ?n" and a = n0 and b = n1
          and c = n2 and f = "\<lambda>i j k. double_of_ulong (offset_jik ?n i j k)"]
      by (simp only: v append_Nil2)
  qed
qed

lemma buffered_loops:
  assumes step: "\<And>x y rest. triple (I (map (f x y) (upto_ul c) @ rest)) (body x y) (I rest) Q"
  shows "triple (I (traverse3 a b c f @ rest)) (for_ul 0 a (\<lambda>x. for_ul 0 b (body x))) (I rest) Q"
proof -
  have inner: "triple (I (concat (map (\<lambda>y. map (f x y) (upto_ul c)) (upto_ul b)) @ r))
                 (for_ul 0 b (body x)) (I r) Q" for x r
    by (rule triple_for_list [where I = I and g = "\<lambda>y. map (f x y) (upto_ul c)"]) (rule step)
  show ?thesis
    unfolding traverse3_def
    by (rule triple_for_list [where I = I
          and g = "\<lambda>x. concat (map (\<lambda>y. map (f x y) (upto_ul c)) (upto_ul b))"])
       (rule inner)
qed

lemma init_vector_input_correct:
  assumes N8: "8 * n_elems (n0, n1, n2) < 2 ^ 63" and pos: "0 < n0" "0 < n1" "0 < n2"
    and heap: "heap (8 * n0)"
    and whole: "whole = init_values algorithm_vector_input (n0, n1, n2)"
    and fits: "init_fits cap whole"
  shows "triple (init_app ip cap ot whole whole)
           (init_vector_input (io_driver_callbacks d) heap (n0, n1, n2))
           (init_app ip cap ot whole []) (\<lambda>e. False)"
proof (rule tripleI)
  let ?n = "(n0, n1, n2)"
  let ?I = "\<lambda>rest sv. init_app ip cap ot whole rest (fst sv) \<and> length (snd sv) = unat n0"
  fix s assume inv: "init_app ip cap ot whole whole s"
  have len: "unat (8 * n0) = 8 * unat n0" by (rule unat_col_len [OF N8 pos(2,3)])
  have w: "whole = traverse3 n1 n2 n0 (\<lambda>j k i. double_of_ulong (offset_jki ?n i j k)) @ []"
    unfolding whole by (simp add: init_values_def)
  have loop: "triple (?I (traverse3 n1 n2 n0 (\<lambda>j k i. double_of_ulong (offset_jki ?n i j k)) @ []))
          (for_ul 0 n1 (\<lambda>j. for_ul 0 n2 (init_vi_step (io_driver_callbacks d) ?n (8 * n0) j)))
          (?I []) (\<lambda>e. False)"
    by (rule buffered_loops [where I = ?I]) (rule init_vi_step_append [OF fits len pos(1)])
  then have loop': "triple (\<lambda>sv. init_app ip cap ot whole whole (fst sv) \<and> length (snd sv) = unat n0)
          (for_ul 0 n1 (\<lambda>j. for_ul 0 n2 (init_vi_step (io_driver_callbacks d) ?n (8 * n0) j)))
          (\<lambda>sv. init_app ip cap ot whole [] (fst sv)) (\<lambda>e. False)"
    by (rule triple_weaken) (simp_all only: w [symmetric])
  have l: "unat (8 * n0) div 8 = unat n0" by (simp add: len)
  show "case init_vector_input (io_driver_callbacks d) heap ?n s of
          Inl e \<Rightarrow> False | Inr s' \<Rightarrow> init_app ip cap ot whole [] s'"
    unfolding init_vector_input_def prod.case Let_def
    using heap
    by (simp only: not_True_eq_False if_False)
       (rule drop_buffer_triple [OF loop'],
        simp only: fst_conv snd_conv length_replicate l inv simp_thms)
qed

lemma init_vector_output_correct:
  assumes N8: "8 * n_elems (n0, n1, n2) < 2 ^ 63" and pos: "0 < n0" "0 < n1" "0 < n2"
    and heap: "heap (8 * n2)"
    and whole: "whole = init_values algorithm_vector_output (n0, n1, n2)"
    and fits: "init_fits cap whole"
  shows "triple (init_app ip cap ot whole whole)
           (init_vector_output (io_driver_callbacks d) heap (n0, n1, n2))
           (init_app ip cap ot whole []) (\<lambda>e. False)"
proof (rule tripleI)
  let ?n = "(n0, n1, n2)"
  let ?I = "\<lambda>rest sv. init_app ip cap ot whole rest (fst sv) \<and> length (snd sv) = unat n2"
  fix s assume inv: "init_app ip cap ot whole whole s"
  have len: "unat (8 * n2) = 8 * unat n2" by (rule unat_row_len [OF N8 pos(1,2)])
  have w: "whole = traverse3 n1 n0 n2 (\<lambda>j i k. double_of_ulong (offset_jki ?n i j k)) @ []"
    unfolding whole by (simp add: init_values_def)
  have loop: "triple (?I (traverse3 n1 n0 n2 (\<lambda>j i k. double_of_ulong (offset_jki ?n i j k)) @ []))
          (for_ul 0 n1 (\<lambda>j. for_ul 0 n0 (init_vo_step (io_driver_callbacks d) ?n (8 * n2) j)))
          (?I []) (\<lambda>e. False)"
    by (rule buffered_loops [where I = ?I]) (rule init_vo_step_append [OF fits len pos(3)])
  then have loop': "triple (\<lambda>sv. init_app ip cap ot whole whole (fst sv) \<and> length (snd sv) = unat n2)
          (for_ul 0 n1 (\<lambda>j. for_ul 0 n0 (init_vo_step (io_driver_callbacks d) ?n (8 * n2) j)))
          (\<lambda>sv. init_app ip cap ot whole [] (fst sv)) (\<lambda>e. False)"
    by (rule triple_weaken) (simp_all only: w [symmetric])
  have l: "unat (8 * n2) div 8 = unat n2" by (simp add: len)
  show "case init_vector_output (io_driver_callbacks d) heap ?n s of
          Inl e \<Rightarrow> False | Inr s' \<Rightarrow> init_app ip cap ot whole [] s'"
    unfolding init_vector_output_def prod.case Let_def
    using heap
    by (simp only: not_True_eq_False if_False)
       (rule drop_buffer_triple [OF loop'],
        simp only: fst_conv snd_conv length_replicate l inv simp_thms)
qed

lemma init_matrix_correct:
  assumes N8: "8 * n_elems (n0, n1, n2) < 2 ^ 63" and pos: "0 < n0" "0 < n1" "0 < n2"
    and heap: "heap (8 * n0 * n2)"
    and whole: "whole = init_values algorithm_matrix (n0, n1, n2)"
    and fits: "init_fits cap whole"
  shows "triple (init_app ip cap ot whole whole)
           (init_matrix (io_driver_callbacks d) heap (n0, n1, n2))
           (init_app ip cap ot whole []) (\<lambda>e. False)"
proof (rule tripleI)
  let ?n = "(n0, n1, n2)"
  let ?I = "\<lambda>rest sv. init_app ip cap ot whole rest (fst sv) \<and> length (snd sv) = unat n2 * unat n0"
  let ?g = "\<lambda>j. concat (map (\<lambda>k. map (\<lambda>i. double_of_ulong (offset_jki ?n i j k)) (upto_ul n0))
                         (upto_ul n2))"
  fix s assume inv: "init_app ip cap ot whole whole s"
  have len8: "unat (8 * n0 * n2) = 8 * (unat n0 * unat n2)" by (rule unat_block_len(1) [OF N8 pos(2)])
  then have len: "unat (8 * n0 * n2) = 8 * (unat n2 * unat n0)" by (simp only: mult.commute)
  from plane_le [OF pos(2), of n0 n2] N8 have "unat n0 * unat n2 < 2 ^ 64" by simp
  then have AC: "unat n2 * unat n0 < 2 ^ 64" by (simp only: mult.commute)
  have w: "whole = concat (map ?g (upto_ul n1)) @ []"
    unfolding whole by (simp add: init_values_def traverse3_def)
  have loop: "triple (?I (concat (map ?g (upto_ul n1)) @ []))
          (for_ul 0 n1 (init_matrix_step (io_driver_callbacks d) ?n (8 * n0 * n2)))
          (?I []) (\<lambda>e. False)"
    by (rule triple_for_list [where I = ?I and g = ?g])
       (rule init_matrix_step_append [OF fits len pos(1,3) AC])
  then have loop': "triple
          (\<lambda>sv. init_app ip cap ot whole whole (fst sv) \<and> length (snd sv) = unat n2 * unat n0)
          (for_ul 0 n1 (init_matrix_step (io_driver_callbacks d) ?n (8 * n0 * n2)))
          (\<lambda>sv. init_app ip cap ot whole [] (fst sv)) (\<lambda>e. False)"
    by (rule triple_weaken) (simp_all only: w [symmetric])
  have "unat (8 * n0 * n2) div 8 = 8 * (unat n2 * unat n0) div 8" by (simp only: len)
  then have l: "unat (8 * n0 * n2) div 8 = unat n2 * unat n0" by simp
  show "case init_matrix (io_driver_callbacks d) heap ?n s of
          Inl e \<Rightarrow> False | Inr s' \<Rightarrow> init_app ip cap ot whole [] s'"
    unfolding init_matrix_def prod.case Let_def
    using heap
    by (simp only: not_True_eq_False if_False)
       (rule drop_buffer_triple [OF loop'],
        simp only: fst_conv snd_conv length_replicate l inv simp_thms)
qed

lemma init_input_correct:
  assumes pos: "0 < n0" "0 < n1" "0 < n2" and a: "a \<in> conversion_algorithms"
    and st: "init_st ip cap ot [] s"
  shows "case init_input (io_driver_callbacks d) heap a (n0, n1, n2) s of
           Inl e \<Rightarrow> \<not> init_resources heap a (n0, n1, n2) cap
         | Inr s' \<Rightarrow> a \<in> map_algorithms \<or> init_resources heap a (n0, n1, n2) cap \<longrightarrow>
                       init_st ip cap ot (init_values a (n0, n1, n2)) s'"
proof (cases "a \<in> map_algorithms")
  case True
  let ?n = "(n0, n1, n2)"
  have "init_resources heap a ?n cap \<Longrightarrow> init_fits cap (init_values a ?n)"
    by (simp add: init_resources_def init_fits_def length_init_values [OF a])
  moreover have "triple (init_app ip cap ot (init_values a ?n) (init_values a ?n))
           (init_input (io_driver_callbacks d) heap a ?n)
           (init_app ip cap ot (init_values a ?n) [])
           (\<lambda>e. \<not> init_fits cap (init_values a ?n))"
    by (rule init_maps_correct [OF True])
  note tripleD [OF this init_app_start [OF st]]
  ultimately show ?thesis using True
    by (cases "init_input (io_driver_callbacks d) heap a ?n s") (auto dest: init_app_end)
next
  case False
  let ?n = "(n0, n1, n2)"
  show ?thesis
  proof (cases "init_resources heap a ?n cap")
    case res: True
    then have N8: "8 * n_elems ?n < 2 ^ 63" and fits: "init_fits cap (init_values a ?n)"
      by (simp_all add: init_resources_def init_fits_def length_init_values [OF a])
    from a False consider "a = algorithm_vector_input" | "a = algorithm_vector_output"
      | "a = algorithm_matrix"
      by (auto simp: conversion_algorithms_def map_algorithms_def)
    then have "case init_input (io_driver_callbacks d) heap a ?n s of
            Inl e \<Rightarrow> False | Inr s' \<Rightarrow> init_app ip cap ot (init_values a ?n) [] s'"
    proof cases
      case 1
      have e: "init_input (io_driver_callbacks d) heap a ?n s
                 = init_vector_input (io_driver_callbacks d) heap ?n s"
        unfolding 1 by (simp add: init_input_def)
      from res have h: "heap (8 * n0)" by (simp add: init_resources_def 1)
      show ?thesis
        unfolding e
        by (rule tripleD [OF init_vector_input_correct [where heap = heap and whole = "init_values a ?n",
                OF N8 pos h _ fits] init_app_start [OF st]])
           (simp only: 1)
    next
      case 2
      have e: "init_input (io_driver_callbacks d) heap a ?n s
                 = init_vector_output (io_driver_callbacks d) heap ?n s"
        unfolding 2 by (simp add: init_input_def)
      from res have h: "heap (8 * n2)" by (simp add: init_resources_def 2)
      show ?thesis
        unfolding e
        by (rule tripleD [OF init_vector_output_correct [where heap = heap and whole = "init_values a ?n",
                OF N8 pos h _ fits] init_app_start [OF st]])
           (simp only: 2)
    next
      case 3
      have e: "init_input (io_driver_callbacks d) heap a ?n s
                 = init_matrix (io_driver_callbacks d) heap ?n s"
        unfolding 3 by (simp add: init_input_def)
      from res have h: "heap (8 * n0 * n2)" by (simp add: init_resources_def 3)
      show ?thesis
        unfolding e
        by (rule tripleD [OF init_matrix_correct [where heap = heap and whole = "init_values a ?n",
                OF N8 pos h _ fits] init_app_start [OF st]])
           (simp only: 3)
    qed
    then show ?thesis
      by (cases "init_input (io_driver_callbacks d) heap a ?n s") (auto dest: init_app_end)
  next
    case nres: False
    with False show ?thesis
      by (cases "init_input (io_driver_callbacks d) heap a ?n s") simp_all
  qed
qed

subsection \<open>What the initializer stores\<close>

text \<open>
  C3. Let the dimensions be positive and the input handle be open for writing on the
  empty input file. The initializer either returns or exits, and it exits only if the
  file system has no room for \<open>n0 * n1 * n2\<close> elements or the buffer cannot be
  allocated. When it returns, after a map variant, or after another variant if the
  resources suffice (these variants ignore a write that fails), the input file holds
  \<open>init_values a n\<close>: the values of the steps in the order of the traversal. The
  step of \<open>(i, j, k)\<close> stores \<^verbatim>\<open>offset_jki(n, i, j, k)\<close> in the variants
  \<^verbatim>\<open>jki_map\<close>, \<^verbatim>\<open>vector_input\<close>, \<^verbatim>\<open>vector_output\<close> and \<^verbatim>\<open>matrix\<close>,
  \<^verbatim>\<open>offset_ijk(n, i, j, k)\<close> in \<^verbatim>\<open>ijk_map\<close> and \<^verbatim>\<open>offset_jik(n, i, j, k)\<close> in
  \<^verbatim>\<open>jik_map\<close>, each converted to a double. The steps of \<^verbatim>\<open>ijk_map\<close> and
  \<^verbatim>\<open>jik_map\<close> come in the order \<open>i\<close>, \<open>j\<close>, \<open>k\<close>, those of \<^verbatim>\<open>vector_output\<close> in
  the order \<open>j\<close>, \<open>i\<close>, \<open>k\<close>, the others in the order \<open>j\<close>, \<open>k\<close>, \<open>i\<close>.
\<close>

theorem initializer_values:
  assumes pos: "0 < n0" "0 < n1" "0 < n2" and a: "a \<in> conversion_algorithms"
    and st: "init_st ip cap ot [] s"
  shows "(case init_input (io_driver_callbacks d) heap a (n0, n1, n2) s of
            Inl e \<Rightarrow> \<not> init_resources heap a (n0, n1, n2) cap
          | Inr s' \<Rightarrow> a \<in> map_algorithms \<or> init_resources heap a (n0, n1, n2) cap \<longrightarrow>
                        fs (world s') = ot(ip \<mapsto> init_values a (n0, n1, n2)))
         \<and> (\<forall>i j k. i < n0 \<and> j < n1 \<and> k < n2 \<longrightarrow>
              (a = algorithm_ijk_map \<longrightarrow>
                 init_values a (n0, n1, n2) ! ((unat i * unat n1 + unat j) * unat n2 + unat k)
                   = double_of_ulong (offset_ijk (n0, n1, n2) i j k))
              \<and> (a = algorithm_jik_map \<longrightarrow>
                 init_values a (n0, n1, n2) ! ((unat i * unat n1 + unat j) * unat n2 + unat k)
                   = double_of_ulong (offset_jik (n0, n1, n2) i j k))
              \<and> (a = algorithm_vector_output \<longrightarrow>
                 init_values a (n0, n1, n2) ! ((unat j * unat n0 + unat i) * unat n2 + unat k)
                   = double_of_ulong (offset_jki (n0, n1, n2) i j k))
              \<and> (a \<in> {algorithm_jki_map, algorithm_vector_input, algorithm_matrix} \<longrightarrow>
                 init_values a (n0, n1, n2) ! ((unat j * unat n2 + unat k) * unat n0 + unat i)
                   = double_of_ulong (offset_jki (n0, n1, n2) i j k)))"
proof
  from init_input_correct [OF pos a st, where d = d and heap = heap]
  show "case init_input (io_driver_callbacks d) heap a (n0, n1, n2) s of
            Inl e \<Rightarrow> \<not> init_resources heap a (n0, n1, n2) cap
          | Inr s' \<Rightarrow> a \<in> map_algorithms \<or> init_resources heap a (n0, n1, n2) cap \<longrightarrow>
                        fs (world s') = ot(ip \<mapsto> init_values a (n0, n1, n2))"
    by (cases "init_input (io_driver_callbacks d) heap a (n0, n1, n2) s")
       (auto simp: init_st_def)
  show "\<forall>i j k. i < n0 \<and> j < n1 \<and> k < n2 \<longrightarrow>
              (a = algorithm_ijk_map \<longrightarrow>
                 init_values a (n0, n1, n2) ! ((unat i * unat n1 + unat j) * unat n2 + unat k)
                   = double_of_ulong (offset_ijk (n0, n1, n2) i j k))
              \<and> (a = algorithm_jik_map \<longrightarrow>
                 init_values a (n0, n1, n2) ! ((unat i * unat n1 + unat j) * unat n2 + unat k)
                   = double_of_ulong (offset_jik (n0, n1, n2) i j k))
              \<and> (a = algorithm_vector_output \<longrightarrow>
                 init_values a (n0, n1, n2) ! ((unat j * unat n0 + unat i) * unat n2 + unat k)
                   = double_of_ulong (offset_jki (n0, n1, n2) i j k))
              \<and> (a \<in> {algorithm_jki_map, algorithm_vector_input, algorithm_matrix} \<longrightarrow>
                 init_values a (n0, n1, n2) ! ((unat j * unat n2 + unat k) * unat n0 + unat i)
                   = double_of_ulong (offset_jki (n0, n1, n2) i j k))"
    by (auto simp: init_values_def nth_traverse3
          simp del: offset_ijk.simps offset_jki.simps offset_jik.simps)
qed

theorem initializer_values_witness:
  "(0::ulong) < 2 \<and> (0::ulong) < 1
   \<and> algorithm_vector_output \<in> conversion_algorithms
   \<and> init_st ''in'' 10 Map.empty [] (ex_init_open 10)
   \<and> init_resources (\<lambda>l. True) algorithm_vector_output (2, 1, 2) 10
   \<and> (case init_input (io_driver_callbacks io_driver_fd) (\<lambda>l. True) algorithm_vector_output
             (2, 1, 2) (ex_init_open 10) of
        Inl e \<Rightarrow> False
      | Inr s' \<Rightarrow> fs (world s') = [''in'' \<mapsto> map double_of_ulong [0, 2, 1, 3]])
   \<and> init_values algorithm_vector_output (2, 1, 2) ! ((unat (0::ulong) * unat (2::ulong) + unat (0::ulong)) * unat (2::ulong) + unat (1::ulong))
       = double_of_ulong (offset_jki (2, 1, 2) 0 0 1)"
proof -
  have v: "init_values algorithm_vector_output (2, 1, 2) = map double_of_ulong [0, 2, 1, 3]"
    by (simp add: init_values_def traverse3_def upto_ul_def upt_conv_Cons)
  have p: "(0::ulong) < 2" "(0::ulong) < 1" by simp_all
  have a: "algorithm_vector_output \<in> conversion_algorithms"
    by (simp add: conversion_algorithms_def)
  have st: "init_st ''in'' 10 Map.empty [] (ex_init_open 10)" by (simp add: init_st_def ex_init_open_def)
  have r: "init_resources (\<lambda>l. True) algorithm_vector_output (2, 1, 2) 10"
    by (simp add: init_resources_def n_elems_def)
  note t = initializer_values [OF p(1) p(2) p(1) a st, where d = io_driver_fd and heap = "\<lambda>l. True"]
  from t r
  have "case init_input (io_driver_callbacks io_driver_fd) (\<lambda>l. True) algorithm_vector_output
             (2, 1, 2) (ex_init_open 10) of
        Inl e \<Rightarrow> False
      | Inr s' \<Rightarrow> fs (world s') = [''in'' \<mapsto> map double_of_ulong [0, 2, 1, 3]]"
    by (cases "init_input (io_driver_callbacks io_driver_fd) (\<lambda>l. True) algorithm_vector_output
             (2, 1, 2) (ex_init_open 10)") (simp_all add: v)
  moreover
  from t [THEN conjunct2, THEN spec [where x = 0], THEN spec [where x = 0], THEN spec [where x = 1]]
  have "init_values algorithm_vector_output (2, 1, 2) ! ((unat (0::ulong) * unat (2::ulong) + unat (0::ulong)) * unat (2::ulong) + unat (1::ulong))
       = double_of_ulong (offset_jki (2, 1, 2) 0 0 1)"
    by simp
  ultimately show ?thesis using p a st r by blast
qed

text \<open>
  The \<^verbatim>\<open>jik_map\<close> variant does not store \<^verbatim>\<open>offset_jki\<close>. With the dimensions
  \<open>(2, 1, 2)\<close> its four steps, of \<open>(0, 0, 0)\<close>, \<open>(0, 0, 1)\<close>, \<open>(1, 0, 0)\<close> and
  \<open>(1, 0, 1)\<close>, store the doubles of 0, 1, 2, 3, which are their \<^verbatim>\<open>offset_jik\<close>; their
  \<^verbatim>\<open>offset_jki\<close> are 0, 2, 1, 3.
\<close>

theorem initializer_jik_map_counterexample:
  "fs (world (final_state (run (\<lambda>len. True)
        ((ex_config io_driver_fd algorithm_jik_map True (2, 1, 2))\<lparr>output_file := None\<rparr>)
        (ex_world [] 100)))) ''in''
     = Some (map double_of_ulong
         [offset_jik (2, 1, 2) 0 0 0, offset_jik (2, 1, 2) 0 0 1,
          offset_jik (2, 1, 2) 1 0 0, offset_jik (2, 1, 2) 1 0 1])
   \<and> map double_of_ulong
         [offset_jik (2, 1, 2) 0 0 0, offset_jik (2, 1, 2) 0 0 1,
          offset_jik (2, 1, 2) 1 0 0, offset_jik (2, 1, 2) 1 0 1]
     \<noteq> map double_of_ulong
         [offset_jki (2, 1, 2) 0 0 0, offset_jki (2, 1, 2) 0 0 1,
          offset_jki (2, 1, 2) 1 0 0, offset_jki (2, 1, 2) 1 0 1]
   \<and> [offset_jki (2, 1, 2) 0 0 0, offset_jki (2, 1, 2) 0 0 1,
       offset_jki (2, 1, 2) 1 0 0, offset_jki (2, 1, 2) 1 0 1] = [0, 2, 1, 3]"
  by (simp add: run_defs ex_config_def ex_world_def final_state_def bitlen.simps
        double_of_ulong_def)

section \<open>The scenario with the dimensions \<open>(2, 2, 2)\<close>\<close>

lemma ex_init_run_result:
  "world (final_state (ex_init_run d))
     = ex_world [(''in'', map double_of_ulong [0, 1, 2, 3, 4, 5, 6, 7])] 100
   \<and> ex_init_run d = Inr (final_state (ex_init_run d))"
  by (cases d)
     (simp_all add: ex_init_run_def run_defs ex_config_def ex_world_def final_state_def bitlen.simps)

lemma ex_conv_run_result:
  assumes "a \<in> map_algorithms"
  shows "ex_conv_run d a = Inr (final_state (ex_conv_run d a))
         \<and> fs (world (final_state (ex_conv_run d a))) ''out''
             = Some (map double_of_ulong [0, 2, 1, 3, 4, 6, 5, 7])"
proof -
  from assms consider "a = algorithm_ijk_map" | "a = algorithm_jki_map" | "a = algorithm_jik_map"
    by (auto simp: map_algorithms_def)
  then show ?thesis
    by cases
      (cases d;
        simp add: ex_conv_run_def run_defs ex_config_def ex_world_def final_state_def bitlen.simps)+
qed

lemma double_patterns:
  "map double_of_ulong [0, 1, 2, 3, 4, 5, 6, 7]
     = [0, 0x3FF0000000000000, 0x4000000000000000, 0x4008000000000000, 0x4010000000000000,
        0x4014000000000000, 0x4018000000000000, 0x401C000000000000]
   \<and> map double_of_ulong [0, 2, 1, 3, 4, 6, 5, 7]
     = [0, 0x4000000000000000, 0x3FF0000000000000, 0x4008000000000000, 0x4010000000000000,
        0x4018000000000000, 0x4014000000000000, 0x401C000000000000]"
  by (simp add: double_of_ulong_def bitlen.simps Let_def)

text \<open>
  C7. With the dimensions \<open>(2, 2, 2)\<close>, a run that only initializes the input file with
  \<^verbatim>\<open>jki_map\<close> returns and leaves a file system whose only file is the input file, with
  the doubles of 0, 1, 2, 3, 4, 5, 6, 7 at the element positions 0 to 7. A run that
  converts this file with \<^verbatim>\<open>ijk_map\<close>, \<^verbatim>\<open>jki_map\<close> or \<^verbatim>\<open>jik_map\<close> returns and
  leaves the doubles of 0, 2, 1, 3, 4, 6, 5, 7 at the element positions 0 to 7 of the
  output file. Both hold on the descriptor backend and on the stream backend. The
  doubles are the binary64 patterns of 0.0 to 7.0.
\<close>

theorem scenario_2_2_2:
  "world (final_state (ex_init_run io_driver_fd))
     = ex_world [(''in'', map double_of_ulong [0, 1, 2, 3, 4, 5, 6, 7])] 100
   \<and> ex_init_run io_driver_fd = Inr (final_state (ex_init_run io_driver_fd))
   \<and> world (final_state (ex_init_run io_driver_stream))
     = ex_world [(''in'', map double_of_ulong [0, 1, 2, 3, 4, 5, 6, 7])] 100
   \<and> ex_init_run io_driver_stream = Inr (final_state (ex_init_run io_driver_stream))
   \<and> ex_conv_run io_driver_fd algorithm_ijk_map
       = Inr (final_state (ex_conv_run io_driver_fd algorithm_ijk_map))
   \<and> fs (world (final_state (ex_conv_run io_driver_fd algorithm_ijk_map))) ''out''
       = Some (map double_of_ulong [0, 2, 1, 3, 4, 6, 5, 7])
   \<and> ex_conv_run io_driver_fd algorithm_jki_map
       = Inr (final_state (ex_conv_run io_driver_fd algorithm_jki_map))
   \<and> fs (world (final_state (ex_conv_run io_driver_fd algorithm_jki_map))) ''out''
       = Some (map double_of_ulong [0, 2, 1, 3, 4, 6, 5, 7])
   \<and> ex_conv_run io_driver_fd algorithm_jik_map
       = Inr (final_state (ex_conv_run io_driver_fd algorithm_jik_map))
   \<and> fs (world (final_state (ex_conv_run io_driver_fd algorithm_jik_map))) ''out''
       = Some (map double_of_ulong [0, 2, 1, 3, 4, 6, 5, 7])
   \<and> ex_conv_run io_driver_stream algorithm_ijk_map
       = Inr (final_state (ex_conv_run io_driver_stream algorithm_ijk_map))
   \<and> fs (world (final_state (ex_conv_run io_driver_stream algorithm_ijk_map))) ''out''
       = Some (map double_of_ulong [0, 2, 1, 3, 4, 6, 5, 7])
   \<and> ex_conv_run io_driver_stream algorithm_jki_map
       = Inr (final_state (ex_conv_run io_driver_stream algorithm_jki_map))
   \<and> fs (world (final_state (ex_conv_run io_driver_stream algorithm_jki_map))) ''out''
       = Some (map double_of_ulong [0, 2, 1, 3, 4, 6, 5, 7])
   \<and> ex_conv_run io_driver_stream algorithm_jik_map
       = Inr (final_state (ex_conv_run io_driver_stream algorithm_jik_map))
   \<and> fs (world (final_state (ex_conv_run io_driver_stream algorithm_jik_map))) ''out''
       = Some (map double_of_ulong [0, 2, 1, 3, 4, 6, 5, 7])
   \<and> map double_of_ulong [0, 1, 2, 3, 4, 5, 6, 7]
       = [0, 0x3FF0000000000000, 0x4000000000000000, 0x4008000000000000, 0x4010000000000000,
          0x4014000000000000, 0x4018000000000000, 0x401C000000000000]
   \<and> map double_of_ulong [0, 2, 1, 3, 4, 6, 5, 7]
       = [0, 0x4000000000000000, 0x3FF0000000000000, 0x4008000000000000, 0x4010000000000000,
          0x4018000000000000, 0x4014000000000000, 0x401C000000000000]"
proof -
  note i = ex_init_run_result
  have m: "algorithm_ijk_map \<in> map_algorithms" "algorithm_jki_map \<in> map_algorithms"
    "algorithm_jik_map \<in> map_algorithms" by (simp_all add: map_algorithms_def)
  show ?thesis
    by (intro conjI i [THEN conjunct1] i [THEN conjunct2]
          ex_conv_run_result [OF m(1), THEN conjunct1] ex_conv_run_result [OF m(1), THEN conjunct2]
          ex_conv_run_result [OF m(2), THEN conjunct1] ex_conv_run_result [OF m(2), THEN conjunct2]
          ex_conv_run_result [OF m(3), THEN conjunct1] ex_conv_run_result [OF m(3), THEN conjunct2]
          double_patterns [THEN conjunct1] double_patterns [THEN conjunct2])
qed

section \<open>Initializing and converting in one run\<close>










subsection \<open>The doubles of the offsets\<close>





subsection \<open>The round trip\<close>




end
